theory Spec2Isabelle
  imports Complex_Main "HOL-Library.Sublist" "HOL-Library.AList"
begin

section \<open>Strings as the program sees them\<close>

text \<open>
  Query strings are sequences of UTF-16 code units; the model covers the code units
  below 256 (ASCII and Latin-1), one \<open>char\<close> each, so \<open>length\<close> is the
  \<open>.length\<close> of the program.
\<close>

text \<open>The code units with a lowercase form: A to Z, and the accented capitals of Latin-1.\<close>

definition isUpperCase :: "nat \<Rightarrow> bool" where
  "isUpperCase n = ((65 \<le> n \<and> n \<le> 90) \<or> (192 \<le> n \<and> n \<le> 222 \<and> n \<noteq> 215))"

definition toLowerCase_char :: "char \<Rightarrow> char" where
  "toLowerCase_char c =
     (let n = (of_char c :: nat)
      in if isUpperCase n then char_of (n + 32) else c)"

definition toLowerCase :: "string \<Rightarrow> string" where
  "toLowerCase s = map toLowerCase_char s"

text \<open>White space and line terminators of \<open>String.prototype.trim\<close>, below 256.\<close>

definition isTrimSpace :: "char \<Rightarrow> bool" where
  "isTrimSpace c = (let n = (of_char c :: nat) in (9 \<le> n \<and> n \<le> 13) \<or> n = 32 \<or> n = 160)"

definition trim :: "string \<Rightarrow> string" where
  "trim s = rev (dropWhile isTrimSpace (rev (dropWhile isTrimSpace s)))"

section \<open>Semantic analysis (mcp-server.js)\<close>

text \<open>
  The separator of \<open>analyzeSemantics\<close> is the regular expression literal
  \<open>/\\s+/\<close>: an escaped backslash, then the letter s one or more times. A match
  at the head of a string is a backslash followed by a maximal non-empty run of the
  letter s; \<open>matchSeparator\<close> gives the length of that match.
\<close>

definition matchSeparator :: "string \<Rightarrow> nat option" where
  "matchSeparator t =
     (case t of
        [] \<Rightarrow> None
      | c # cs \<Rightarrow>
          if c = CHR 0x5C \<and> takeWhile (\<lambda>x. x = CHR ''s'') cs \<noteq> []
          then Some (1 + length (takeWhile (\<lambda>x. x = CHR ''s'') cs))
          else None)"

text \<open>
  \<open>String.prototype.split\<close> with a regular expression: \<open>piece\<close> is the text
  since the end of the last match, the second argument is the text from the current
  position on. Where the separator matches, the piece is pushed and the scan resumes
  behind the match; elsewhere the position advances by one. The text left at the end is
  pushed, so the empty string splits into one empty piece.
\<close>

function splitSeparator :: "string \<Rightarrow> string \<Rightarrow> string list" where
  "splitSeparator piece [] = [piece]"
| "splitSeparator piece (c # cs) =
     (case matchSeparator (c # cs) of
        Some n \<Rightarrow> piece # splitSeparator [] (drop n (c # cs))
      | None \<Rightarrow> splitSeparator (piece @ [c]) cs)"
  by pat_completeness auto
termination
  by (relation "measure (\<lambda>(piece, rest). length rest)")
     (auto simp: matchSeparator_def split: if_splits)

datatype intent = question | search | current | ranking | general_intent

datatype category = tech | ai | business | news | gaming | general_category

definition includes_str :: "string \<Rightarrow> string \<Rightarrow> bool" where
  "includes_str q w = list_ex (\<lambda>t. prefix w t) (suffixes q)"

definition matchesAny :: "string \<Rightarrow> string list \<Rightarrow> bool" where
  "matchesAny q ws = list_ex (includes_str q) ws"

definition detectIntent :: "string \<Rightarrow> intent" where
  "detectIntent query =
     (let q = toLowerCase query
      in if matchesAny q [''how'', ''why'', ''what'', ''when'', ''where'', ''who''] then question
         else if matchesAny q [''find'', ''search'', ''look'', ''locate''] then search
         else if matchesAny q [''latest'', ''new'', ''recent'', ''today''] then current
         else if matchesAny q [''best'', ''top'', ''rank'', ''compare''] then ranking
         else general_intent)"

definition categories :: "(category \<times> string list) list" where
  "categories =
     [(tech, [''javascript'', ''python'', ''react'', ''nodejs'', ''code'', ''programming'',
              ''api'', ''database'']),
      (ai, [''ai'', ''machine'', ''learning'', ''model'', ''neural'', ''llm'', ''gpt'']),
      (business, [''startup'', ''business'', ''marketing'', ''sales'', ''growth'', ''vc'',
                  ''funding'']),
      (news, [''news'', ''breaking'', ''today'', ''current'', ''latest'', ''happening'']),
      (gaming, [''game'', ''roblox'', ''minecraft'', ''unity'', ''unreal'', ''steam'',
                ''esports''])]"

fun detectCategory_loop :: "(category \<times> string list) list \<Rightarrow> string list \<Rightarrow> category" where
  "detectCategory_loop [] keywords = general_category"
| "detectCategory_loop ((cat, ws) # rest) keywords =
     (if list_ex (\<lambda>k. k \<in> set ws) keywords then cat else detectCategory_loop rest keywords)"

definition detectCategory :: "string list \<Rightarrow> category" where
  "detectCategory keywords = detectCategory_loop categories keywords"

record semantics =
  keywords_f :: "string list"
  intent :: intent
  category :: category
  raw :: string

definition analyzeSemantics :: "string \<Rightarrow> semantics" where
  "analyzeSemantics query =
     (let kws = filter (\<lambda>w. length w > 2) (splitSeparator [] (toLowerCase query))
      in \<lparr> keywords_f = kws, intent = detectIntent query, category = detectCategory kws,
           raw = query \<rparr>)"

text \<open>
  The specification's reading of keyword extraction, for comparison: lowercase, split on
  runs of white space, discard the tokens of length at most 2.
\<close>

definition isRegexSpace :: "char \<Rightarrow> bool" where
  "isRegexSpace c = (let n = (of_char c :: nat) in (9 \<le> n \<and> n \<le> 13) \<or> n = 32 \<or> n = 160)"

function splitWhitespace :: "string \<Rightarrow> string \<Rightarrow> string list" where
  "splitWhitespace piece [] = [piece]"
| "splitWhitespace piece (c # cs) =
     (if isRegexSpace c then piece # splitWhitespace [] (dropWhile isRegexSpace cs)
      else splitWhitespace (piece @ [c]) cs)"
  by pat_completeness auto
termination
  by (relation "measure (\<lambda>(piece, rest). length rest)")
     (auto simp: le_imp_less_Suc length_dropWhile_le)

definition spec_keywords :: "string \<Rightarrow> string list" where
  "spec_keywords q = filter (\<lambda>w. length w > 2) (splitWhitespace [] (toLowerCase q))"

section \<open>Errors and inherited properties\<close>

text \<open>
  A thrown JavaScript error is a value carrying its message. \<open>rateLimitTracker\<close> and
  the provider registry are plain objects (\<open>{}\<close>), so reading a property finds the
  object's own properties first and the properties inherited from \<open>Object.prototype\<close>
  after that; these are their names.
\<close>

datatype js_error = TypeError string | Error string

definition objectPrototypeKeys :: "string list" where
  "objectPrototypeKeys =
     [''constructor'', ''__proto__'', ''hasOwnProperty'', ''isPrototypeOf'',
      ''propertyIsEnumerable'', ''toLocaleString'', ''toString'', ''valueOf'',
      ''__defineGetter__'', ''__defineSetter__'', ''__lookupGetter__'', ''__lookupSetter__'']"

section \<open>Rate limiting (mcp-server.js)\<close>

definition RATE_LIMIT :: nat where
  "RATE_LIMIT = 100"

record rateLimitResult =
  allowed :: bool
  remaining :: int
  resetAt :: int

text \<open>The own properties of \<open>rateLimitTracker\<close>: client id to array of timestamps.\<close>

type_synonym tracker = "string \<rightharpoonup> int list"

text \<open>
  \<open>checkRateLimit\<close> at clock reading \<open>now\<close>. A client id without an own
  property that names an inherited property reads a function or object: it is truthy, so
  no array is created, and it has no \<open>filter\<close> method, so the call throws before
  anything is written.
\<close>

definition checkRateLimit :: "int \<Rightarrow> string \<Rightarrow> tracker \<Rightarrow> js_error + (rateLimitResult \<times> tracker)" where
  "checkRateLimit now clientId t =
     (let windowStart = now - 600000
      in if t clientId = None \<and> clientId \<in> set objectPrototypeKeys
         then Inl (TypeError ''rateLimitTracker[clientId].filter is not a function'')
         else
           let w0 = (case t clientId of None \<Rightarrow> [] | Some w \<Rightarrow> w);
               w1 = filter (\<lambda>x. x > windowStart) w0
           in if length w1 \<ge> RATE_LIMIT
              then Inr (\<lparr> allowed = False, remaining = 0, resetAt = hd w1 + 600000 \<rparr>,
                        t(clientId \<mapsto> w1))
              else
                let w2 = w1 @ [now]
                in Inr (\<lparr> allowed = True, remaining = int RATE_LIMIT - int (length w2),
                          resetAt = now + 600000 \<rparr>,
                        t(clientId \<mapsto> w2)))"

text \<open>The timestamps held for a client; none before its first call.\<close>

definition window :: "tracker \<Rightarrow> string \<Rightarrow> int list" where
  "window t clientId = (case t clientId of None \<Rightarrow> [] | Some w \<Rightarrow> w)"

text \<open>
  The client ids for which \<open>rateLimitTracker[clientId]\<close> reads an array or
  \<open>undefined\<close>: those with an own property, and those that name no inherited one.
\<close>

definition readsArray :: "tracker \<Rightarrow> string \<Rightarrow> bool" where
  "readsArray t clientId = (t clientId \<noteq> None \<or> clientId \<notin> set objectPrototypeKeys)"

text \<open>
  Consecutive calls of one client at the given clock readings; the results in call order.
  A throwing call ends the run, as nothing catches it here.
\<close>

fun checkRateLimit_calls :: "int list \<Rightarrow> string \<Rightarrow> tracker \<Rightarrow> js_error + (rateLimitResult list \<times> tracker)" where
  "checkRateLimit_calls [] clientId t = Inr ([], t)"
| "checkRateLimit_calls (now # nows) clientId t =
     (case checkRateLimit now clientId t of
        Inl e \<Rightarrow> Inl e
      | Inr (r, t') \<Rightarrow>
          (case checkRateLimit_calls nows clientId t' of
             Inl e \<Rightarrow> Inl e
           | Inr (rs, t'') \<Rightarrow> Inr (r # rs, t'')))"

section \<open>Search with caching (mcp-server.js)\<close>

definition CACHE_TTL :: int where
  "CACHE_TTL = 300000"

definition MAX_RESULTS :: nat where
  "MAX_RESULTS = 20"

text \<open>One result of the search API as received, and as stored.\<close>

record rawResult =
  raw_title :: string
  raw_url :: string
  raw_snippet :: string

record resultItem =
  id_r :: string
  title :: string
  url :: string
  snippet :: string
  relevance :: rat
  domain_r :: string

record cacheEntry =
  query :: string
  results :: "resultItem list"
  timestamp :: int
  semantics_e :: semantics
  clientId :: string
  hitCount :: nat

text \<open>
  \<open>queryCache\<close> is a \<open>Map\<close>: keys are unique and iteration follows insertion order.
  \<open>set\<close> on a present key replaces the value in place and on a new key appends
  (\<open>AList.update\<close>); \<open>delete\<close> removes the key (\<open>AList.delete\<close>).
  \<open>semanticIndex\<close> maps a keyword to the array of cache keys pushed for it.
\<close>

record mcpState =
  queryCache :: "(string \<times> cacheEntry) list"
  semanticIndex :: "string \<rightharpoonup> string list"

text \<open>
  What \<open>fetch\<close> and \<open>response.json()\<close> deliver: a rejected fetch, a body that is
  not JSON, the JSON value \<open>null\<close>, or an object with its \<open>success\<close> flag, its
  \<open>error\<close> text and its \<open>results\<close> (absent when it is no array).
\<close>

datatype upstream =
    FetchRejected string
  | JsonRejected string
  | JsonNull
  | ApiData bool string "rawResult list option"

text \<open>The clock readings of one call, in the order \<open>Date.now()\<close> is read.\<close>

record clock =
  tLookup :: int
  tAge :: int
  tStore :: int
  tReturn :: int

datatype searchResponse =
    FromCache cacheEntry int
  | Live string "resultItem list" nat semantics int
  | Failed string string int

fun source :: "searchResponse \<Rightarrow> string" where
  "source (FromCache e age) = ''cache''"
| "source (Live q rs n sem ts) = ''live''"
| "source (Failed q msg ts) = ''error''"

fun results_of :: "searchResponse \<Rightarrow> resultItem list" where
  "results_of (FromCache e age) = results e"
| "results_of (Live q rs n sem ts) = rs"
| "results_of (Failed q msg ts) = []"

text \<open>Decimal digits of an array index, for the template string of the result id.\<close>

fun decimal :: "nat \<Rightarrow> string" where
  "decimal n = (if n < 10 then [char_of (48 + n)] else decimal (n div 10) @ [char_of (48 + n mod 10)])"

text \<open>
  The callback of \<open>data.results.map\<close>. \<open>hostname\<close> is the platform's URL parser:
  \<open>None\<close> where \<open>new URL\<close> throws.
\<close>

definition mapResult :: "(string \<Rightarrow> string option) \<Rightarrow> string \<Rightarrow> nat \<Rightarrow> rawResult \<Rightarrow> js_error + resultItem" where
  "mapResult hostname cacheKey idx r =
     (case hostname (raw_url r) of
        None \<Rightarrow> Inl (TypeError ''Invalid URL'')
      | Some h \<Rightarrow>
          Inr \<lparr> id_r = cacheKey @ ''_'' @ decimal idx, title = raw_title r, url = raw_url r,
                snippet = raw_snippet r,
                relevance = (of_nat MAX_RESULTS - of_nat idx) / of_nat MAX_RESULTS,
                domain_r = h \<rparr>)"

fun mapResults :: "(string \<Rightarrow> string option) \<Rightarrow> string \<Rightarrow> nat \<Rightarrow> rawResult list \<Rightarrow> js_error + resultItem list" where
  "mapResults hostname cacheKey idx [] = Inr []"
| "mapResults hostname cacheKey idx (r # rs) =
     (case mapResult hostname cacheKey idx r of
        Inl e \<Rightarrow> Inl e
      | Inr x \<Rightarrow>
          (case mapResults hostname cacheKey (Suc idx) rs of
             Inl e \<Rightarrow> Inl e
           | Inr xs \<Rightarrow> Inr (x # xs)))"

text \<open>The first half of the \<open>try\<close> block: everything before the cache is written.\<close>

definition liveResults :: "(string \<Rightarrow> string option) \<Rightarrow> string \<Rightarrow> upstream \<Rightarrow> js_error + resultItem list" where
  "liveResults hostname cacheKey up =
     (case up of
        FetchRejected msg \<Rightarrow> Inl (TypeError msg)
      | JsonRejected msg \<Rightarrow> Inl (Error msg)
      | JsonNull \<Rightarrow> Inl (TypeError ''Cannot read properties of null (reading 'success')'')
      | ApiData ok err rs \<Rightarrow>
          if \<not> ok then Inl (Error err)
          else (case rs of
                  None \<Rightarrow> Inl (TypeError ''data.results.map is not a function'')
                | Some xs \<Rightarrow> mapResults hostname cacheKey 0 xs))"

definition message :: "js_error \<Rightarrow> string" where
  "message e = (case e of TypeError m \<Rightarrow> m | Error m \<Rightarrow> m)"

definition indexKeyword :: "string \<Rightarrow> string \<Rightarrow> (string \<rightharpoonup> string list) \<Rightarrow> (string \<rightharpoonup> string list)" where
  "indexKeyword cacheKey keyword idx =
     idx(keyword \<mapsto> (case idx keyword of None \<Rightarrow> [] | Some ks \<Rightarrow> ks) @ [cacheKey])"

text \<open>
  The entry that the cleanup removes: the first element of the entries sorted by
  timestamp. \<open>Array.prototype.sort\<close> is stable, as \<open>sort_key\<close> is.
\<close>

definition oldest :: "(string \<times> cacheEntry) list \<Rightarrow> string \<times> cacheEntry" where
  "oldest c = hd (sort_key (\<lambda>kv. timestamp (snd kv)) c)"

definition cleanup :: "(string \<times> cacheEntry) list \<Rightarrow> (string \<times> cacheEntry) list" where
  "cleanup c = (if length c > 1000 then AList.delete (fst (oldest c)) c else c)"

definition normalizeKey :: "string \<Rightarrow> string" where
  "normalizeKey q = trim (toLowerCase q)"

text \<open>
  A fresh cached entry answers the call; otherwise the live path runs.
\<close>

definition freshEntry :: "clock \<Rightarrow> string \<Rightarrow> mcpState \<Rightarrow> cacheEntry option" where
  "freshEntry ck cacheKey s =
     (case map_of (queryCache s) cacheKey of
        None \<Rightarrow> None
      | Some cached \<Rightarrow> if tLookup ck - timestamp cached < CACHE_TTL then Some cached else None)"

text \<open>The object literal \<open>cacheEntry\<close> of the live path.\<close>

definition newCacheEntry :: "clock \<Rightarrow> string \<Rightarrow> string \<Rightarrow> resultItem list \<Rightarrow> cacheEntry" where
  "newCacheEntry ck q cid rs =
     \<lparr> query = q, results = rs, timestamp = tStore ck, semantics_e = analyzeSemantics q,
       clientId = cid, hitCount = 0 \<rparr>"

definition searchQuery ::
  "(string \<Rightarrow> string option) \<Rightarrow> clock \<Rightarrow> upstream \<Rightarrow> string \<Rightarrow> string \<Rightarrow> mcpState
     \<Rightarrow> searchResponse \<times> mcpState" where
  "searchQuery hostname ck up q cid s =
     (let cacheKey = normalizeKey q;
          sem = analyzeSemantics q
      in case freshEntry ck cacheKey s of
           Some cached \<Rightarrow> (FromCache cached (tAge ck - timestamp cached), s)
         | None \<Rightarrow>
             (case liveResults hostname cacheKey up of
                Inl e \<Rightarrow> (Failed q (message e) (tReturn ck), s)
              | Inr rs \<Rightarrow>
                  let cacheEntry = newCacheEntry ck q cid rs;
                      c1 = AList.update cacheKey cacheEntry (queryCache s);
                      idx = fold (indexKeyword cacheKey) (keywords_f sem) (semanticIndex s)
                  in (Live q rs (length rs) sem (tReturn ck),
                      \<lparr> queryCache = cleanup c1, semanticIndex = idx \<rparr>)))"

text \<open>What a \<open>Map\<close> of at most 1000 entries is: unique keys, bounded size.\<close>

definition cacheInv :: "mcpState \<Rightarrow> bool" where
  "cacheInv s = (distinct (map fst (queryCache s)) \<and> length (queryCache s) \<le> 1000)"

text \<open>One call as data, and a sequence of calls threaded through the state.\<close>

record searchCall =
  call_clock :: clock
  call_upstream :: upstream
  call_query :: string
  call_client :: string

definition searchQuery_call :: "(string \<Rightarrow> string option) \<Rightarrow> searchCall \<Rightarrow> mcpState \<Rightarrow> mcpState" where
  "searchQuery_call hostname c s =
     snd (searchQuery hostname (call_clock c) (call_upstream c) (call_query c) (call_client c) s)"

definition searchQuery_calls :: "(string \<Rightarrow> string option) \<Rightarrow> searchCall list \<Rightarrow> mcpState \<Rightarrow> mcpState" where
  "searchQuery_calls hostname cs s = fold (searchQuery_call hostname) cs s"

definition emptyState :: mcpState where
  "emptyState = \<lparr> queryCache = [], semanticIndex = Map.empty \<rparr>"

text \<open>
  A full cache for the examples: 1000 entries under the keys a, aa, aaa, ..., stored at
  the times 0, 1, 2, ...
\<close>

definition sampleEntry :: "nat \<Rightarrow> string \<times> cacheEntry" where
  "sampleEntry i =
     (replicate (Suc i) CHR ''a'',
      \<lparr> query = replicate (Suc i) CHR ''a'', results = [], timestamp = int i,
        semantics_e = analyzeSemantics (replicate (Suc i) CHR ''a''), clientId = ''c'',
        hitCount = 0 \<rparr>)"

definition fullCache :: mcpState where
  "fullCache = \<lparr> queryCache = map sampleEntry [0..<1000], semanticIndex = Map.empty \<rparr>"

definition clockAt :: "int \<Rightarrow> clock" where
  "clockAt t = \<lparr> tLookup = t, tAge = t, tStore = t, tReturn = t \<rparr>"

text \<open>A cache holding one entry, stored at time 0 for the query "Hello".\<close>

definition helloCache :: mcpState where
  "helloCache =
     \<lparr> queryCache = [(''hello'', newCacheEntry (clockAt 0) ''Hello'' ''c'' [])],
       semanticIndex = Map.empty \<rparr>"

section \<open>Streaming (mcp-streaming)\<close>

record chunk =
  type_c :: string
  data_c :: string
  timestamp_c :: int

datatype status = active | closed

text \<open>
  A listener is the closure that \<open>handleSSE\<close> creates over its response object; it is
  identified with the handle of that response.
\<close>

record stream =
  id_s :: string
  clientId_s :: string
  query_s :: string
  created :: int
  chunks :: "chunk list"
  status :: status
  listeners :: "nat list"
  closedAt :: "int option"
  closeReason :: "string option"

record metrics =
  active_m :: int
  total_m :: nat
  chunksStreamed :: nat

text \<open>What has been written to a server-sent-events response, and whether it was ended.\<close>

datatype sse = ChunkEvent string string | StreamNotFound

record response =
  written :: "sse list"
  ended :: bool

text \<open>
  \<open>timers\<close> holds the stream ids of the deletions that \<open>closeStream\<close> has scheduled
  and that have not fired yet; the handle of a response is its index in \<open>responses\<close>.
\<close>

record streamState =
  activeStreams :: "string \<rightharpoonup> stream"
  streamMetrics :: metrics
  timers :: "string list"
  responses :: "response list"

definition res_write :: "nat \<Rightarrow> sse \<Rightarrow> streamState \<Rightarrow> streamState" where
  "res_write r ev s =
     (if r < length (responses s) \<and> \<not> ended (responses s ! r)
      then s\<lparr> responses := (responses s)[r := (responses s ! r)\<lparr> written := written (responses s ! r) @ [ev] \<rparr>] \<rparr>
      else s)"

definition res_end :: "nat \<Rightarrow> streamState \<Rightarrow> streamState" where
  "res_end r s =
     (if r < length (responses s)
      then s\<lparr> responses := (responses s)[r := (responses s ! r)\<lparr> ended := True \<rparr>] \<rparr>
      else s)"

definition event_of :: "chunk \<Rightarrow> sse" where
  "event_of c = ChunkEvent (type_c c) (data_c c)"

definition createStream :: "string \<Rightarrow> string \<Rightarrow> string \<Rightarrow> int \<Rightarrow> streamState \<Rightarrow> string \<times> streamState" where
  "createStream streamId cid q now s =
     (let st = \<lparr> id_s = streamId, clientId_s = cid, query_s = q, created = now, chunks = [],
                 status = active, listeners = [], closedAt = None, closeReason = None \<rparr>
      in (streamId,
          s\<lparr> activeStreams := (activeStreams s)(streamId \<mapsto> st),
             streamMetrics := (streamMetrics s)\<lparr> active_m := active_m (streamMetrics s) + 1,
                                                total_m := total_m (streamMetrics s) + 1 \<rparr> \<rparr>))"

definition streamChunk :: "string \<Rightarrow> string \<Rightarrow> string \<Rightarrow> int \<Rightarrow> streamState \<Rightarrow> bool \<times> streamState" where
  "streamChunk streamId d chunkType now s =
     (case activeStreams s streamId of
        None \<Rightarrow> (False, s)
      | Some st \<Rightarrow>
          let c = \<lparr> type_c = chunkType, data_c = d, timestamp_c = now \<rparr>;
              s1 = s\<lparr> activeStreams := (activeStreams s)(streamId \<mapsto> st\<lparr> chunks := chunks st @ [c] \<rparr>),
                      streamMetrics := (streamMetrics s)\<lparr> chunksStreamed := chunksStreamed (streamMetrics s) + 1 \<rparr> \<rparr>
          in (True, fold (\<lambda>callback. res_write callback (event_of c)) (listeners st) s1))"

definition closeStream :: "string \<Rightarrow> string \<Rightarrow> int \<Rightarrow> streamState \<Rightarrow> bool \<times> streamState" where
  "closeStream streamId reason now s =
     (case activeStreams s streamId of
        None \<Rightarrow> (False, s)
      | Some st \<Rightarrow>
          (True,
           s\<lparr> activeStreams := (activeStreams s)(streamId \<mapsto>
                  st\<lparr> status := closed, closedAt := Some now, closeReason := Some reason \<rparr>),
              streamMetrics := (streamMetrics s)\<lparr> active_m := active_m (streamMetrics s) - 1 \<rparr>,
              timers := timers s @ [streamId] \<rparr>))"

text \<open>The callback of the timer that \<open>closeStream\<close> sets, when it fires.\<close>

definition timerFires :: "string \<Rightarrow> streamState \<Rightarrow> streamState" where
  "timerFires streamId s =
     (if streamId \<in> set (timers s)
      then s\<lparr> activeStreams := (activeStreams s)(streamId := None),
              timers := remove1 streamId (timers s) \<rparr>
      else s)"

definition getStream :: "string \<Rightarrow> streamState \<Rightarrow> stream option" where
  "getStream streamId s = activeStreams s streamId"

definition subscribeStream :: "string \<Rightarrow> nat \<Rightarrow> streamState \<Rightarrow> bool \<times> streamState" where
  "subscribeStream streamId callback s =
     (case getStream streamId s of
        None \<Rightarrow> (False, s)
      | Some st \<Rightarrow>
          (True, s\<lparr> activeStreams := (activeStreams s)(streamId \<mapsto>
                                         st\<lparr> listeners := listeners st @ [callback] \<rparr>) \<rparr>))"

text \<open>
  \<open>handleSSE\<close> on a new response object; it returns the handle of that response.
\<close>

definition handleSSE :: "string \<Rightarrow> streamState \<Rightarrow> nat \<times> streamState" where
  "handleSSE streamId s =
     (let res = length (responses s);
          s0 = s\<lparr> responses := responses s @ [\<lparr> written = [], ended = False \<rparr>] \<rparr>
      in case getStream streamId s0 of
           None \<Rightarrow> (res, res_end res (res_write res StreamNotFound s0))
         | Some st \<Rightarrow>
             let s1 = fold (\<lambda>c. res_write res (event_of c)) (chunks st) s0
             in (res, snd (subscribeStream streamId res s1)))"

text \<open>The handler that \<open>handleSSE\<close> registers for the close of the request.\<close>

definition clientDisconnects :: "nat \<Rightarrow> string \<Rightarrow> int \<Rightarrow> streamState \<Rightarrow> streamState" where
  "clientDisconnects res streamId now s =
     res_end res (snd (closeStream streamId ''client_disconnect'' now s))"

datatype streamOp =
    Create string string string int
  | Emit string string string int
  | Close string string int
  | Subscribe string
  | Disconnect nat string int
  | Timer string

fun step :: "streamOp \<Rightarrow> streamState \<Rightarrow> streamState" where
  "step (Create streamId cid q now) s = snd (createStream streamId cid q now s)"
| "step (Emit streamId d ty now) s = snd (streamChunk streamId d ty now s)"
| "step (Close streamId reason now) s = snd (closeStream streamId reason now s)"
| "step (Subscribe streamId) s = snd (handleSSE streamId s)"
| "step (Disconnect res streamId now) s = clientDisconnects res streamId now s"
| "step (Timer streamId) s = timerFires streamId s"

definition run :: "streamOp list \<Rightarrow> streamState \<Rightarrow> streamState" where
  "run ops s = fold step ops s"

text \<open>
  The chunks that a run of operations emits on one stream: those of the \<open>streamChunk\<close>
  calls on it that return true, in call order.
\<close>

fun emitted :: "string \<Rightarrow> streamOp list \<Rightarrow> streamState \<Rightarrow> sse list" where
  "emitted streamId [] s = []"
| "emitted streamId (op # ops) s =
     (case op of
        Emit i d ty now \<Rightarrow>
          (if i = streamId \<and> fst (streamChunk i d ty now s) then [ChunkEvent ty d] else [])
      | _ \<Rightarrow> [])
     @ emitted streamId ops (step op s)"

definition initialStreams :: streamState where
  "initialStreams =
     \<lparr> activeStreams = Map.empty,
       streamMetrics = \<lparr> active_m = 0, total_m = 0, chunksStreamed = 0 \<rparr>,
       timers = [], responses = [] \<rparr>"

text \<open>
  Every listener of every stream is the handle of an existing response, as
  \<open>handleSSE\<close> is the only caller of \<open>subscribeStream\<close>.
\<close>

definition wellFormed :: "streamState \<Rightarrow> bool" where
  "wellFormed s =
     (\<forall>streamId st. activeStreams s streamId = Some st \<longrightarrow>
        (\<forall>l \<in> set (listeners st). l < length (responses s)))"

text \<open>
  The operations that leave the subscriber with response \<open>res\<close> on stream
  \<open>streamId\<close> attached: all but the disconnect of that client and the creation of
  another stream under the same id.
\<close>

fun keepsSubscriber :: "nat \<Rightarrow> string \<Rightarrow> streamOp \<Rightarrow> bool" where
  "keepsSubscriber res streamId (Disconnect r i now) = (r \<noteq> res)"
| "keepsSubscriber res streamId (Create i cid q now) = (i \<noteq> streamId)"
| "keepsSubscriber res streamId op = True"

text \<open>
  The response \<open>res\<close> is open and is a listener of the stream \<open>streamId\<close>,
  once, and of no other stream.
\<close>

definition attached :: "nat \<Rightarrow> string \<Rightarrow> streamState \<Rightarrow> bool" where
  "attached res streamId s =
     (res < length (responses s) \<and> \<not> ended (responses s ! res) \<and> wellFormed s \<and>
      (\<forall>i st. activeStreams s i = Some st \<longrightarrow>
         count_list (listeners st) res = (if i = streamId then 1 else 0)))"

text \<open>The operations that put a new stream under the id \<open>streamId\<close>.\<close>

fun recreates :: "string \<Rightarrow> streamOp \<Rightarrow> bool" where
  "recreates streamId (Create i cid q now) = (i = streamId)"
| "recreates streamId op = False"

text \<open>A stream that was created and then closed, for the examples.\<close>

definition closedExample :: streamState where
  "closedExample =
     snd (closeStream ''s1'' ''complete'' 2 (snd (createStream ''s1'' ''c'' ''q'' 1 initialStreams)))"

section \<open>Provider orchestration (MCPOrchestrator)\<close>

record server =
  name_sv :: string
  type_sv :: string
  url_sv :: string
  command_sv :: string
  priority :: nat
  capabilities :: "string list"

text \<open>
  \<open>initializeServers\<close>; the two URLs are the environment variables
  \<open>WEB_SEARCH_MCP_URL\<close> and \<open>BUBBLE_SEARCH_URL\<close>, absent or empty when \<open>None\<close>.
\<close>

definition initializeServers :: "string option \<Rightarrow> string option \<Rightarrow> (string \<times> server) list" where
  "initializeServers webUrl bubbleUrl =
     [(''webSearchMCP'',
       \<lparr> name_sv = ''web-search-mcp'', type_sv = ''mcp'',
         url_sv = (case webUrl of None \<Rightarrow> ''http://localhost:3001'' | Some u \<Rightarrow> u),
         command_sv = ''web-search-mcp'', priority = 1,
         capabilities = [''search'', ''summarize''] \<rparr>),
      (''bubbleSearch'',
       \<lparr> name_sv = ''bubble-search'', type_sv = ''rest'',
         url_sv = (case bubbleUrl of None \<Rightarrow> ''http://localhost:3002'' | Some u \<Rightarrow> u),
         command_sv = ''npm run dev'', priority = 2,
         capabilities = [''search'', ''free-tier''] \<rparr>)]"

text \<open>
  Reading \<open>this.servers[name]\<close>: a registered server, a property inherited from
  \<open>Object.prototype\<close> (truthy, with no \<open>url\<close>), or \<open>undefined\<close>.
\<close>

datatype property = Own server | Inherited | Undefined

definition getServer :: "(string \<times> server) list \<Rightarrow> string \<Rightarrow> property" where
  "getServer reg nm =
     (case map_of reg nm of
        Some sv \<Rightarrow> Own sv
      | None \<Rightarrow> if nm \<in> set objectPrototypeKeys then Inherited else Undefined)"

fun urlOf :: "property \<Rightarrow> string" where
  "urlOf (Own sv) = url_sv sv"
| "urlOf Inherited = ''undefined''"
| "urlOf Undefined = ''undefined''"

text \<open>
  The network: the outcome of the n-th request that a call makes. \<open>Resolved\<close> carries
  \<open>response.data\<close>, \<open>Rejected\<close> the message of the error (a refused connection, a
  status outside 2xx, a timeout).
\<close>

datatype request = Get string | Post string "(string \<times> string) list"

datatype outcome = Resolved string | Rejected string

type_synonym network = "nat \<Rightarrow> request \<Rightarrow> outcome"

record health =
  status_h :: string
  error_h :: "string option"
  timestamp_h :: int

record orchestrator =
  servers :: "(string \<times> server) list"
  serverHealth :: "string \<rightharpoonup> health"
  requests :: "request list"

definition send :: "network \<Rightarrow> request \<Rightarrow> orchestrator \<Rightarrow> outcome \<times> orchestrator" where
  "send net req orch = (net (length (requests orch)) req, orch\<lparr> requests := requests orch @ [req] \<rparr>)"

text \<open>
  Assigning \<open>this.serverHealth[name]\<close> creates an own property, except under the
  name \<open>__proto__\<close>, where the assignment sets the prototype instead.
\<close>

definition setHealth :: "string \<Rightarrow> health \<Rightarrow> orchestrator \<Rightarrow> orchestrator" where
  "setHealth nm h orch =
     (if nm = ''__proto__'' then orch else orch\<lparr> serverHealth := (serverHealth orch)(nm \<mapsto> h) \<rparr>)"

definition checkHealth :: "network \<Rightarrow> int \<Rightarrow> string \<Rightarrow> orchestrator \<Rightarrow> string \<times> orchestrator" where
  "checkHealth net now serverName orch =
     (case getServer (servers orch) serverName of
        Undefined \<Rightarrow> (''not-found'', orch)
      | sv \<Rightarrow>
          (case send net (Get (urlOf sv @ ''/health'')) orch of
             (Resolved d, orch1) \<Rightarrow>
               (''healthy'',
                setHealth serverName \<lparr> status_h = ''healthy'', error_h = None, timestamp_h = now \<rparr> orch1)
           | (Rejected msg, orch1) \<Rightarrow>
               (''unhealthy'',
                setHealth serverName \<lparr> status_h = ''unhealthy'', error_h = Some msg, timestamp_h = now \<rparr> orch1)))"

datatype searchResult =
    Served string string string
  | FailedOver string string string string
  | Unavailable string

fun success :: "searchResult \<Rightarrow> bool" where
  "success (Served sv d ts) = True"
| "success (FailedOver sv d primary ts) = True"
| "success (Unavailable details) = False"

fun failover :: "searchResult \<Rightarrow> bool" where
  "failover (Served sv d ts) = False"
| "failover (FailedOver sv d primary ts) = True"
| "failover (Unavailable details) = False"

fun served_by :: "searchResult \<Rightarrow> string option" where
  "served_by (Served sv d ts) = Some sv"
| "served_by (FailedOver sv d primary ts) = Some sv"
| "served_by (Unavailable details) = None"

text \<open>An object literal with a spread: later properties replace earlier ones in place.\<close>

definition spread :: "(string \<times> string) list \<Rightarrow> (string \<times> string) list \<Rightarrow> (string \<times> string) list" where
  "spread obj options = fold (\<lambda>kv. AList.update (fst kv) (snd kv)) options obj"

definition fallbackSearch ::
  "network \<Rightarrow> string \<Rightarrow> string \<Rightarrow> string \<Rightarrow> (string \<times> string) list \<Rightarrow> orchestrator
     \<Rightarrow> searchResult \<times> orchestrator" where
  "fallbackSearch net isoNow q primaryServer options orch =
     (let alternativeServer = (if primaryServer = ''webSearchMCP'' then ''bubbleSearch'' else ''webSearchMCP'')
      in case send net (Post (urlOf (getServer (servers orch) alternativeServer) @ ''/search'')
                             (spread [(''query'', q)] options)) orch of
           (Resolved d, orch1) \<Rightarrow> (FailedOver alternativeServer d primaryServer isoNow, orch1)
         | (Rejected msg, orch1) \<Rightarrow> (Unavailable msg, orch1))"

definition executeSearch ::
  "network \<Rightarrow> int \<Rightarrow> string \<Rightarrow> string \<Rightarrow> (string \<times> string) list \<Rightarrow> orchestrator
     \<Rightarrow> searchResult \<times> orchestrator" where
  "executeSearch net now isoNow q options orch =
     (let server = (case map_of options ''server'' of None \<Rightarrow> ''webSearchMCP'' | Some sv \<Rightarrow> sv);
          limit = (case map_of options ''limit'' of None \<Rightarrow> ''10'' | Some l \<Rightarrow> l);
          selectedServer = getServer (servers orch) server
      in if selectedServer = Undefined then fallbackSearch net isoNow q server options orch
         else
           (case checkHealth net now server orch of
              (st, orch1) \<Rightarrow>
                if st \<noteq> ''healthy'' then fallbackSearch net isoNow q server options orch1
                else
                  (case send net (Post (urlOf selectedServer @ ''/search'')
                                       (spread [(''query'', q), (''limit'', limit)] options)) orch1 of
                     (Resolved d, orch2) \<Rightarrow> (Served server d isoNow, orch2)
                   | (Rejected msg, orch2) \<Rightarrow> fallbackSearch net isoNow q server options orch2)))"

definition newOrchestrator :: "string option \<Rightarrow> string option \<Rightarrow> orchestrator" where
  "newOrchestrator webUrl bubbleUrl =
     \<lparr> servers = initializeServers webUrl bubbleUrl, serverHealth = Map.empty, requests = [] \<rparr>"

text \<open>
  The requests of a search that asks for the first-priority provider \<open>webSearchMCP\<close>:
  its health probe, the direct call, and the call to the alternate \<open>bubbleSearch\<close>.
\<close>

fun rejected :: "outcome \<Rightarrow> bool" where
  "rejected (Rejected msg) = True"
| "rejected (Resolved d) = False"

definition healthRequest :: "orchestrator \<Rightarrow> request" where
  "healthRequest orch = Get (urlOf (getServer (servers orch) ''webSearchMCP'') @ ''/health'')"

definition directRequest :: "orchestrator \<Rightarrow> string \<Rightarrow> (string \<times> string) list \<Rightarrow> request" where
  "directRequest orch q options =
     Post (urlOf (getServer (servers orch) ''webSearchMCP'') @ ''/search'')
          (spread [(''query'', q),
                   (''limit'', case map_of options ''limit'' of None \<Rightarrow> ''10'' | Some l \<Rightarrow> l)]
             options)"

definition alternateRequest :: "orchestrator \<Rightarrow> string \<Rightarrow> (string \<times> string) list \<Rightarrow> request" where
  "alternateRequest orch q options =
     Post (urlOf (getServer (servers orch) ''bubbleSearch'') @ ''/search'')
          (spread [(''query'', q)] options)"

text \<open>The result that \<open>fallbackSearch\<close> builds from the outcome of the alternate call.\<close>

fun failoverResult :: "string \<Rightarrow> outcome \<Rightarrow> searchResult" where
  "failoverResult isoNow (Resolved d) = FailedOver ''bubbleSearch'' d ''webSearchMCP'' isoNow"
| "failoverResult isoNow (Rejected msg) = Unavailable msg"

section \<open>Usage statistics (mcp-analytics.js, StatsTracker)\<close>

text \<open>
  Durations, means and maxima are JavaScript numbers, that is, IEEE 754 doubles. The
  model leaves their type \<open>'n\<close> and the operations that the recorders apply to them
  as parameters: the product, the sum and the quotient as the arithmetic of the program
  rounds them, its comparison \<open>>\<close>, and the number that an integer counter is.
\<close>

record 'n arith =
  times_n :: "'n \<Rightarrow> 'n \<Rightarrow> 'n"
  plus_n :: "'n \<Rightarrow> 'n \<Rightarrow> 'n"
  divide_n :: "'n \<Rightarrow> 'n \<Rightarrow> 'n"
  greater_n :: "'n \<Rightarrow> 'n \<Rightarrow> bool"
  number :: "nat \<Rightarrow> 'n"

record queryCounters =
  total_q :: nat
  cached_q :: nat
  live_q :: nat
  failed_q :: nat

record 'n searchMetrics =
  total_sm :: nat
  avgTime :: 'n
  maxTime :: 'n

record 'n hourStats =
  queries_hr :: nat
  avgTime_hr :: 'n
  cacheHits_hr :: nat

record 'n analytics =
  queries_a :: queryCounters
  searches :: "'n searchMetrics"
  hourly :: "string \<rightharpoonup> 'n hourStats"

definition analytics0 :: "'n arith \<Rightarrow> 'n analytics" where
  "analytics0 ar =
     \<lparr> queries_a = \<lparr> total_q = 0, cached_q = 0, live_q = 0, failed_q = 0 \<rparr>,
       searches = \<lparr> total_sm = 0, avgTime = number ar 0, maxTime = number ar 0 \<rparr>,
       hourly = Map.empty \<rparr>"

text \<open>
  \<open>recordQuery\<close>; \<open>hour\<close> is the first 13 characters of the ISO time of the call.
  The mean is recomputed as \<open>(avgTime * (total - 1) + duration) / total\<close> with the
  total already incremented, each operation rounded as the program rounds it.
\<close>

definition recordQuery ::
  "'n arith \<Rightarrow> string \<Rightarrow> string \<Rightarrow> 'n \<Rightarrow> bool \<Rightarrow> string \<Rightarrow> 'n analytics \<Rightarrow> 'n analytics" where
  "recordQuery ar q src duration ok hour a =
     (let qc = queries_a a;
          qc1 = qc\<lparr> total_q := total_q qc + 1 \<rparr>;
          qc2 = (if src = ''cache'' then qc1\<lparr> cached_q := cached_q qc1 + 1 \<rparr>
                 else if src = ''live'' then qc1\<lparr> live_q := live_q qc1 + 1 \<rparr>
                 else if \<not> ok then qc1\<lparr> failed_q := failed_q qc1 + 1 \<rparr>
                 else qc1);
          h0 = (case hourly a hour of
                  None \<Rightarrow> \<lparr> queries_hr = 0, avgTime_hr = number ar 0, cacheHits_hr = 0 \<rparr>
                | Some h \<Rightarrow> h);
          h1 = h0\<lparr> queries_hr := queries_hr h0 + 1 \<rparr>;
          sm = searches a;
          n = total_sm sm + 1;
          avg = divide_n ar (plus_n ar (times_n ar (avgTime sm) (number ar (n - 1))) duration)
                  (number ar n);
          sm1 = sm\<lparr> total_sm := n, avgTime := avg \<rparr>;
          sm2 = (if greater_n ar duration (maxTime sm1) then sm1\<lparr> maxTime := duration \<rparr> else sm1)
      in \<lparr> queries_a = qc2, searches = sm2, hourly = (hourly a)(hour \<mapsto> h1) \<rparr>)"

record 'n queryRecord =
  query_qr :: "string option"
  success_qr :: bool
  duration_qr :: 'n
  timestamp_qr :: int
  server_qr :: string

record 'n searchStats =
  totalSearches :: nat
  successfulSearches :: nat
  failedSearches :: nat
  totalQueryCount :: nat
  searchDuration :: "'n list"
  lastUpdated :: int
  queries :: "'n queryRecord list"

definition searchStats0 :: "int \<Rightarrow> 'n searchStats" where
  "searchStats0 now =
     \<lparr> totalSearches = 0, successfulSearches = 0, failedSearches = 0, totalQueryCount = 0,
       searchDuration = [], lastUpdated = now, queries = [] \<rparr>"

text \<open>\<open>(query || '').split(' ').length\<close>: one more than the number of spaces.\<close>

definition wordCount :: "string option \<Rightarrow> nat" where
  "wordCount q = (case q of None \<Rightarrow> 1 | Some t \<Rightarrow> length (filter (\<lambda>c. c = CHR '' '') t) + 1)"

text \<open>
  \<open>StatsTracker.recordSearch\<close> at clock reading \<open>now\<close>; it stores the duration
  and computes nothing from it.
\<close>

definition recordSearch ::
  "string option \<Rightarrow> bool \<Rightarrow> 'n \<Rightarrow> string \<Rightarrow> int \<Rightarrow> 'n searchStats \<Rightarrow> 'n searchStats" where
  "recordSearch q ok duration sv now st =
     (let st1 = st\<lparr> totalSearches := totalSearches st + 1 \<rparr>;
          st2 = (if ok then st1\<lparr> successfulSearches := successfulSearches st1 + 1 \<rparr>
                 else st1\<lparr> failedSearches := failedSearches st1 + 1 \<rparr>);
          st3 = st2\<lparr> totalQueryCount := totalQueryCount st2 + wordCount q,
                     searchDuration := searchDuration st2 @ [duration],
                     lastUpdated := now \<rparr>;
          qs = queries st3 @ [\<lparr> query_qr = q, success_qr = ok, duration_qr = duration,
                                timestamp_qr = now, server_qr = sv \<rparr>]
      in st3\<lparr> queries := (if length qs > 50 then tl qs else qs) \<rparr>)"

text \<open>
  Arithmetic on integers, for the examples. The operations of the program are correctly
  rounded, so they return the exact result wherever it is a double, as every integer of
  magnitude below \<open>2 ^ 53\<close> is; the quotient is used only where it is such an integer.
\<close>

definition wholeArith :: "int arith" where
  "wholeArith =
     \<lparr> times_n = (\<lambda>x y. x * y), plus_n = (\<lambda>x y. x + y), divide_n = (\<lambda>x y. x div y),
       greater_n = (\<lambda>x y. x > y), number = int \<rparr>"

text \<open>A query record for the examples.\<close>

definition oldRecord :: "int queryRecord" where
  "oldRecord = \<lparr> query_qr = Some ''python'', success_qr = True, duration_qr = 80, timestamp_qr = 1,
                 server_qr = ''external-mcp'' \<rparr>"

section \<open>Properties of the semantic analyser\<close>

text \<open>
  Lowercasing never produces a backslash where there was none, and a text without a
  backslash has no separator match: the whole lowercased query is the only token.
\<close>

lemma splitSeparator_no_backslash:
  "CHR 0x5C \<notin> set s \<Longrightarrow> splitSeparator piece s = [piece @ s]"
  by (induction s arbitrary: piece) (auto simp: matchSeparator_def)

lemma of_char_backslash: "(of_char (CHR 0x5C) :: nat) = 92"
  by simp

lemma of_char_lowered: "n + 32 < 256 \<Longrightarrow> (of_char (char_of (n + 32 :: nat)) :: nat) = n + 32"
  by (simp add: of_char_of)

lemma uppercase_range: "isUpperCase n \<Longrightarrow> n + 32 < 256 \<and> n + 32 \<noteq> 92 \<and> n \<noteq> 92"
  unfolding isUpperCase_def by arith

lemma toLowerCase_char_upper:
  "isUpperCase (of_char c) \<Longrightarrow> toLowerCase_char c = char_of ((of_char c :: nat) + 32)"
  unfolding toLowerCase_char_def Let_def by (rule if_P)

lemma toLowerCase_char_other: "\<not> isUpperCase (of_char c) \<Longrightarrow> toLowerCase_char c = c"
  unfolding toLowerCase_char_def Let_def by (rule if_not_P)

lemma not_backslashI: "(of_char c :: nat) \<noteq> 92 \<Longrightarrow> c \<noteq> CHR 0x5C"
  using of_char_backslash by metis

lemma toLowerCase_char_backslash:
  "toLowerCase_char c = CHR 0x5C \<longleftrightarrow> c = CHR 0x5C"
proof (cases "isUpperCase (of_char c)")
  case True
  from uppercase_range[OF True]
  have a: "(of_char c :: nat) + 32 < 256" and b: "(of_char c :: nat) + 32 \<noteq> 92"
    and c: "(of_char c :: nat) \<noteq> 92"
    by blast+
  have "(of_char (toLowerCase_char c) :: nat) = of_char c + 32"
    using toLowerCase_char_upper[OF True] of_char_lowered[OF a] by (simp only:)
  with b have "(of_char (toLowerCase_char c) :: nat) \<noteq> 92" by (simp only: simp_thms)
  then have "toLowerCase_char c \<noteq> CHR 0x5C" by (rule not_backslashI)
  moreover have "c \<noteq> CHR 0x5C" using c by (rule not_backslashI)
  ultimately show ?thesis by (simp only: simp_thms)
next
  case False
  from toLowerCase_char_other[OF False] show ?thesis by (simp only:)
qed

text \<open>
  So every query without a backslash, whatever white space it contains, yields at most one
  keyword: the whole lowercased query.
\<close>

lemma analyzeSemantics_no_backslash:
  assumes "CHR 0x5C \<notin> set q"
  shows "keywords_f (analyzeSemantics q) = (if length q > 2 then [toLowerCase q] else [])"
proof -
  have "CHR 0x5C \<notin> set (toLowerCase q)"
  proof
    assume "CHR 0x5C \<in> set (toLowerCase q)"
    then have "CHR 0x5C \<in> toLowerCase_char ` set q" by (simp only: toLowerCase_def set_map)
    then obtain c where cq: "c \<in> set q" and lc: "toLowerCase_char c = CHR 0x5C"
      by (metis imageE)
    from lc have "c = CHR 0x5C" by (rule iffD1[OF toLowerCase_char_backslash])
    with cq have "CHR 0x5C \<in> set q" by (simp only:)
    with assms show False by (rule notE)
  qed
  then have "splitSeparator [] (toLowerCase q) = [[] @ toLowerCase q]"
    by (rule splitSeparator_no_backslash)
  then have "splitSeparator [] (toLowerCase q) = [toLowerCase q]"
    by (simp only: append_Nil)
  then show ?thesis
    unfolding analyzeSemantics_def Let_def by (simp add: toLowerCase_def)
qed

text \<open>
  C1. The claim: for every query, the keyword list is the lowercased query split on white
  space, without the tokens of length at most 2, so that "python machine learning" gives
  the three keywords "python", "machine", "learning". The separator of the program is
  the regular expression \<open>/\\s+/\<close>, which matches a backslash followed by the letter
  s and no white space: on this query the program yields the single keyword
  "python machine learning", where splitting on white space yields the three words.
\<close>

theorem analyzeSemantics_multiword_one_keyword:
  "keywords_f (analyzeSemantics ''python machine learning'') = [''python machine learning'']
   \<and> spec_keywords ''python machine learning'' = [''python'', ''machine'', ''learning'']"
  by (simp add: analyzeSemantics_def Let_def toLowerCase_def toLowerCase_char_def isUpperCase_def matchSeparator_def
        spec_keywords_def isRegexSpace_def)

section \<open>Properties of the rate limiter\<close>

lemma checkRateLimit_step:
  assumes "readsArray t cid"
  shows "checkRateLimit now cid t =
           (let w1 = filter (\<lambda>x. now - 600000 < x) (window t cid)
            in if 100 \<le> length w1
               then Inr (\<lparr> allowed = False, remaining = 0, resetAt = hd w1 + 600000 \<rparr>, t(cid \<mapsto> w1))
               else Inr (\<lparr> allowed = True, remaining = 99 - int (length w1), resetAt = now + 600000 \<rparr>,
                         t(cid \<mapsto> w1 @ [now])))"
  using assms by (auto simp: checkRateLimit_def readsArray_def window_def RATE_LIMIT_def Let_def split: option.splits)

lemma checkRateLimit_returns_readsArray:
  "checkRateLimit now cid t = Inr (r, t') \<Longrightarrow> readsArray t cid \<and> readsArray t' cid"
  by (auto simp: checkRateLimit_def readsArray_def Let_def split: if_splits)

lemma window_upd: "window (t(cid \<mapsto> w)) c = (if c = cid then w else window t c)"
  by (simp add: window_def)

lemma checkRateLimit_window_bounded:
  assumes "checkRateLimit now cid t = Inr (r, t')" and "length (window t c) \<le> 100"
  shows "length (window t' c) \<le> 100"
proof -
  let ?w1 = "filter (\<lambda>x. now - 600000 < x) (window t cid)"
  have ra: "readsArray t cid" using assms(1) checkRateLimit_returns_readsArray by blast
  have le: "length ?w1 \<le> length (window t cid)" by simp
  show ?thesis
  proof (cases "100 \<le> length ?w1")
    case True
    then have "t' = t(cid \<mapsto> ?w1)"
      using assms(1) checkRateLimit_step[OF ra, of now] by (simp add: Let_def)
    then show ?thesis using assms(2) le_trans[OF le] by (auto simp: window_upd)
  next
    case False
    then have "t' = t(cid \<mapsto> ?w1 @ [now])"
      using assms(1) checkRateLimit_step[OF ra, of now] by (simp add: Let_def)
    then show ?thesis using assms(2) False by (simp add: window_upd)
  qed
qed

lemma checkRateLimit_calls_admits:
  assumes "readsArray t cid"
    and "window t cid = w"
    and "sorted (w @ ts)"
    and "\<forall>x \<in> set (w @ ts). last (w @ ts) - 600000 < x"
    and "length (w @ ts) \<le> 100"
  shows "\<exists>t'. checkRateLimit_calls ts cid t
            = Inr (map (\<lambda>(i, now). \<lparr> allowed = True, remaining = 99 - int i,
                                     resetAt = now + 600000 \<rparr>) (enumerate (length w) ts), t')
          \<and> window t' cid = w @ ts \<and> readsArray t' cid"
  using assms
proof (induction ts arbitrary: t w)
  case Nil
  then show ?case by simp
next
  case (Cons a ts)
  have a_le: "a \<le> last (w @ a # ts)"
    using Cons.prems(3) by (cases ts) (auto simp: sorted_append)
  have keep: "filter (\<lambda>x. a - 600000 < x) w = w"
  proof -
    have "a - 600000 < x" if "x \<in> set w" for x
    proof -
      have "last (w @ a # ts) - 600000 < x" using Cons.prems(4) that by simp
      with a_le show ?thesis by linarith
    qed
    then show ?thesis by (simp add: filter_id_conv)
  qed
  have len: "length w < 100" using Cons.prems(5) by simp
  have step: "checkRateLimit a cid t
      = Inr (\<lparr> allowed = True, remaining = 99 - int (length w), resetAt = a + 600000 \<rparr>,
             t(cid \<mapsto> w @ [a]))"
    using checkRateLimit_step[OF Cons.prems(1), of a] Cons.prems(2) keep len by (simp add: Let_def)
  let ?t1 = "t(cid \<mapsto> w @ [a])"
  have "\<exists>t'. checkRateLimit_calls ts cid ?t1
            = Inr (map (\<lambda>(i, now). \<lparr> allowed = True, remaining = 99 - int i,
                                     resetAt = now + 600000 \<rparr>) (enumerate (length (w @ [a])) ts), t')
          \<and> window t' cid = (w @ [a]) @ ts \<and> readsArray t' cid"
    using Cons.prems by (intro Cons.IH) (auto simp: window_def readsArray_def)
  then show ?case
    using step by auto
qed

text \<open>
  From an empty window, a hundred calls of a client whose id reads an array, at clock
  readings in non-decreasing order that all lie in the window of a later reading
  \<open>tn\<close>, are admitted with 99, 98, ..., 0 remaining; the call at \<open>tn\<close> is then
  denied with \<open>remaining = 0\<close> and \<open>resetAt\<close> the oldest timestamp plus 600000,
  and it leaves the hundred timestamps in place.
\<close>

lemma checkRateLimit_hundred_then_denied:
  assumes "readsArray t cid" and "window t cid = []"
    and "sorted (ts @ [tn])" and "length ts = 100" and "tn - 600000 < hd ts"
  shows "\<exists>t'. checkRateLimit_calls ts cid t
            = Inr (map (\<lambda>(i, now). \<lparr> allowed = True, remaining = 99 - int i,
                                     resetAt = now + 600000 \<rparr>) (enumerate 0 ts), t')
          \<and> checkRateLimit tn cid t'
            = Inr (\<lparr> allowed = False, remaining = 0, resetAt = hd ts + 600000 \<rparr>, t'(cid \<mapsto> ts))"
proof -
  have ne: "ts \<noteq> []" using assms(4) by auto
  have lo: "hd ts \<le> x" if "x \<in> set ts" for x
    using assms(3) that ne by (cases ts) (auto simp: sorted_append)
  have hi: "x \<le> tn" if "x \<in> set ts" for x
    using assms(3) that by (auto simp: sorted_append)
  have "last ts \<le> tn" using hi ne by simp
  then have inwin: "\<forall>x \<in> set ([] @ ts). last ([] @ ts) - 600000 < x"
    using lo assms(5) by fastforce
  obtain t' where t': "checkRateLimit_calls ts cid t
            = Inr (map (\<lambda>(i, now). \<lparr> allowed = True, remaining = 99 - int i,
                                     resetAt = now + 600000 \<rparr>) (enumerate (length ([]::int list)) ts), t')"
      "window t' cid = [] @ ts" "readsArray t' cid"
    using checkRateLimit_calls_admits[OF assms(1) assms(2), of ts] assms(3,4) inwin
    by (auto simp: sorted_append)
  have keep: "filter (\<lambda>x. tn - 600000 < x) ts = ts"
    using lo assms(5) by (fastforce simp: filter_id_conv)
  have "checkRateLimit tn cid t'
            = Inr (\<lparr> allowed = False, remaining = 0, resetAt = hd ts + 600000 \<rparr>, t'(cid \<mapsto> ts))"
    using checkRateLimit_step[OF t'(3), of tn] t'(2) keep assms(4) by (simp add: Let_def)
  with t'(1) show ?thesis by auto
qed

text \<open>
  C2. The claim: for every client id, the 100th request in the rolling window of
  600000 ms is accepted and the 101st is rejected with \<open>remaining = 0\<close> and
  \<open>resetAt\<close> the oldest timestamp in the window plus 600000. The tracker is a plain
  object, so a client id that names a property inherited from \<open>Object.prototype\<close>
  reads that property instead of an array: for the client id "constructor" the first
  call already throws, and no request of that client is ever accepted or rejected.
  (For every other client id the claim holds: \<open>checkRateLimit_hundred_then_denied\<close>.)
\<close>

theorem checkRateLimit_inherited_name_throws:
  "checkRateLimit now ''constructor'' Map.empty
     = Inl (TypeError ''rateLimitTracker[clientId].filter is not a function'')"
  by (simp add: checkRateLimit_def objectPrototypeKeys_def)

text \<open>
  C10. When an admission call returns \<open>allowed = false\<close>, the only change to the
  tracker is that the client's window is replaced by its pruned copy (the timestamps
  newer than \<open>now - 600000\<close>): no timestamp is appended and no other client is touched.
  A later call is admitted as soon as fewer than 100 timestamps remain in its window; with
  at most 100 timestamps held (which every call preserves, see
  \<open>checkRateLimit_window_bounded\<close>), that is the case for every call at or after the
  \<open>resetAt\<close> of the denial.
\<close>

theorem checkRateLimit_denied_only_prunes:
  assumes "checkRateLimit now cid t = Inr (r, t')" and "\<not> allowed r"
  shows "t' = t(cid \<mapsto> filter (\<lambda>x. now - 600000 < x) (window t cid))
         \<and> window t' cid = filter (\<lambda>x. now - 600000 < x) (window t cid)
         \<and> remaining r = 0
         \<and> resetAt r = hd (window t' cid) + 600000
         \<and> (\<forall>later. length (filter (\<lambda>x. later - 600000 < x) (window t' cid)) < 100
               \<longrightarrow> (\<exists>r2 t2. checkRateLimit later cid t' = Inr (r2, t2) \<and> allowed r2
                      \<and> window t2 cid = filter (\<lambda>x. later - 600000 < x) (window t' cid) @ [later]))
         \<and> (length (window t cid) \<le> 100
               \<longrightarrow> (\<forall>later \<ge> resetAt r. \<exists>r2 t2. checkRateLimit later cid t' = Inr (r2, t2) \<and> allowed r2))"
proof -
  let ?w1 = "filter (\<lambda>x. now - 600000 < x) (window t cid)"
  have ra: "readsArray t cid" and ra': "readsArray t' cid"
    using assms(1) checkRateLimit_returns_readsArray by blast+
  have full: "100 \<le> length ?w1" and r: "r = \<lparr> allowed = False, remaining = 0, resetAt = hd ?w1 + 600000 \<rparr>"
    and t': "t' = t(cid \<mapsto> ?w1)"
    using assms checkRateLimit_step[OF ra, of now] by (auto simp: Let_def split: if_splits)
  have w': "window t' cid = ?w1" using t' by (simp add: window_def)
  have later_ok: "\<exists>r2 t2. checkRateLimit later cid t' = Inr (r2, t2) \<and> allowed r2
                      \<and> window t2 cid = filter (\<lambda>x. later - 600000 < x) (window t' cid) @ [later]"
    if "length (filter (\<lambda>x. later - 600000 < x) (window t' cid)) < 100" for later
    using that checkRateLimit_step[OF ra', of later] by (auto simp: Let_def window_def)
  have aged: "\<exists>r2 t2. checkRateLimit later cid t' = Inr (r2, t2) \<and> allowed r2"
    if bound: "length (window t cid) \<le> 100" and ge: "resetAt r \<le> later" for later
  proof -
    have "length ?w1 \<le> length (window t cid)" by simp
    with full bound have len: "length ?w1 = 100" by linarith
    then have ne: "?w1 \<noteq> []" by auto
    then have hd_in: "hd ?w1 \<in> set ?w1" by (rule hd_in_set)
    have "\<not> later - 600000 < hd ?w1" using ge r by simp
    with hd_in have "length (filter (\<lambda>x. later - 600000 < x) ?w1) < length ?w1"
      by (intro length_filter_less) auto
    with len w' have "length (filter (\<lambda>x. later - 600000 < x) (window t' cid)) < 100" by simp
    from later_ok[OF this] show ?thesis by blast
  qed
  show ?thesis
    using t' w' r later_ok aged by simp
qed

theorem checkRateLimit_denied_only_prunes_witness:
  "checkRateLimit 2 ''alice'' [''alice'' \<mapsto> replicate 100 1]
     = Inr (\<lparr> allowed = False, remaining = 0, resetAt = 600001 \<rparr>, [''alice'' \<mapsto> replicate 100 1])
   \<and> (\<exists>r2 t2. checkRateLimit 600001 ''alice'' [''alice'' \<mapsto> replicate 100 1] = Inr (r2, t2) \<and> allowed r2)"
proof -
  let ?t = "[''alice'' \<mapsto> replicate 100 (1::int)]"
  let ?r = "\<lparr> allowed = False, remaining = 0, resetAt = 600001 \<rparr>"
  have call: "checkRateLimit 2 ''alice'' ?t = Inr (?r, ?t)"
    by (simp add: checkRateLimit_def RATE_LIMIT_def Let_def)
  have denied: "\<not> allowed ?r" by simp
  have bound: "length (window ?t ''alice'') \<le> 100" by (simp add: window_def)
  have "\<exists>r2 t2. checkRateLimit 600001 ''alice'' ?t = Inr (r2, t2) \<and> allowed r2"
    using checkRateLimit_denied_only_prunes[OF call denied] bound by simp
  with call show ?thesis by simp
qed


section \<open>Properties of the query cache\<close>

lemma oldest_in_set: "c \<noteq> [] \<Longrightarrow> oldest c \<in> set c"
proof -
  assume "c \<noteq> []"
  then have "sort_key (\<lambda>kv. timestamp (snd kv)) c \<noteq> []"
    by (metis length_0_conv length_sort)
  then have "hd (sort_key (\<lambda>kv. timestamp (snd kv)) c) \<in> set (sort_key (\<lambda>kv. timestamp (snd kv)) c)"
    by (rule hd_in_set)
  then show ?thesis by (simp add: oldest_def)
qed

lemma oldest_least:
  assumes "kv \<in> set c"
  shows "timestamp (snd (oldest c)) \<le> timestamp (snd kv)"
proof -
  let ?f = "\<lambda>kv. timestamp (snd kv)"
  let ?xs = "sort_key ?f c"
  have srt: "sorted (map ?f ?xs)" by (rule sorted_sort_key)
  have mem: "kv \<in> set ?xs" using assms by simp
  then obtain y ys where xs: "?xs = y # ys" by (cases ?xs) auto
  then have "?f y \<le> ?f kv" using srt mem by auto
  then show ?thesis using xs by (simp add: oldest_def)
qed

lemma length_delete_distinct:
  assumes "distinct (map fst c)" and "kv \<in> set c"
  shows "Suc (length (AList.delete (fst kv) c)) = length c"
  using assms
proof (induction c)
  case Nil
  then show ?case by simp
next
  case (Cons a c)
  show ?case
  proof (cases "fst a = fst kv")
    case True
    then have "fst kv \<notin> fst ` set c" using Cons.prems(1) by auto
    then have "AList.delete (fst kv) c = c"
      by (induction c) auto
    with True show ?thesis by simp
  next
    case False
    then have "kv \<in> set c" using Cons.prems(2) by auto
    with Cons False show ?thesis by simp
  qed
qed

lemma set_delete_distinct:
  assumes "distinct (map fst c)" and "kv \<in> set c"
  shows "set (AList.delete (fst kv) c) = set c - {kv}"
proof -
  have same: "x = kv" if "x \<in> set c" and "fst x = fst kv" for x
  proof -
    have "(fst kv, snd x) \<in> set c" using that by (metis prod.collapse)
    moreover have "(fst kv, snd kv) \<in> set c" using assms(2) by simp
    ultimately have "snd x = snd kv" using assms(1) eq_key_imp_eq_value by fastforce
    with that(2) show ?thesis by (simp add: prod_eq_iff)
  qed
  have "set (AList.delete (fst kv) c) = {x \<in> set c. fst x \<noteq> fst kv}"
    by (auto simp: AList.delete_eq)
  also have "\<dots> = set c - {kv}" using same by auto
  finally show ?thesis .
qed

lemma cleanup_props:
  assumes "distinct (map fst c)" and "length c \<le> 1001"
  shows "distinct (map fst (cleanup c))" and "length (cleanup c) \<le> 1000"
proof -
  show "distinct (map fst (cleanup c))"
    using assms(1) by (simp add: cleanup_def distinct_delete)
  show "length (cleanup c) \<le> 1000"
  proof (cases "length c > 1000")
    case True
    then have "c \<noteq> []" by auto
    then have "oldest c \<in> set c" by (rule oldest_in_set)
    from length_delete_distinct[OF assms(1) this] assms(2) True
    show ?thesis by (simp add: cleanup_def)
  next
    case False
    then show ?thesis by (simp add: cleanup_def)
  qed
qed

lemma length_update_le: "length (AList.update k v c) \<le> Suc (length c)"
  by (induction c) auto

lemma searchQuery_cases:
  "searchQuery hostname ck up q cid s =
     (case freshEntry ck (normalizeKey q) s of
        Some cached \<Rightarrow> (FromCache cached (tAge ck - timestamp cached), s)
      | None \<Rightarrow>
          (case liveResults hostname (normalizeKey q) up of
             Inl e \<Rightarrow> (Failed q (message e) (tReturn ck), s)
           | Inr rs \<Rightarrow>
               (Live q rs (length rs) (analyzeSemantics q) (tReturn ck),
                \<lparr> queryCache = cleanup (AList.update (normalizeKey q) (newCacheEntry ck q cid rs) (queryCache s)),
                  semanticIndex = fold (indexKeyword (normalizeKey q)) (keywords_f (analyzeSemantics q))
                                    (semanticIndex s) \<rparr>)))"
  by (simp add: searchQuery_def Let_def split: option.splits sum.splits)

lemma searchQuery_preserves_inv:
  assumes "cacheInv s"
  shows "cacheInv (snd (searchQuery hostname ck up q cid s))"
proof -
  let ?c1 = "\<lambda>rs. AList.update (normalizeKey q) (newCacheEntry ck q cid rs) (queryCache s)"
  have d: "distinct (map fst (?c1 rs))" for rs
    using assms by (simp add: cacheInv_def distinct_update)
  have l: "length (?c1 rs) \<le> 1001" for rs
    using assms length_update_le[of "normalizeKey q" "newCacheEntry ck q cid rs" "queryCache s"]
    by (simp add: cacheInv_def)
  show ?thesis
    using assms cleanup_props[OF d l]
    by (auto simp: searchQuery_cases cacheInv_def split: option.splits sum.splits)
qed

lemma searchQuery_calls_inv:
  "cacheInv s \<Longrightarrow> cacheInv (searchQuery_calls hostname cs s)"
  unfolding searchQuery_calls_def
  by (induction cs arbitrary: s) (auto simp: searchQuery_call_def searchQuery_preserves_inv)

lemma emptyState_inv: "cacheInv emptyState"
  by (simp add: cacheInv_def emptyState_def)


lemma update_new_key: "k \<notin> fst ` set c \<Longrightarrow> AList.update k v c = c @ [(k, v)]"
  by (induction c) auto

text \<open>
  C4. After any sequence of calls from the empty cache, the cache holds at most 1000
  entries. A call that stores (a live result) into a cache of unique keys and at most
  1000 entries leaves such a cache again; when the insertion brings the count above 1000,
  exactly one entry is removed, the size is 1000 again, and the removed entry is one with
  the smallest timestamp among the entries present after the insertion (the first such
  in insertion order); otherwise nothing is removed.
\<close>

theorem searchQuery_capacity:
  "length (queryCache (searchQuery_calls hostname cs emptyState)) \<le> 1000
   \<and> (cacheInv s \<and> searchQuery hostname ck up q cid s = (Live q' rs n sem ts, s') \<longrightarrow>
        cacheInv s' \<and>
        (let c1 = AList.update (normalizeKey q) (newCacheEntry ck q cid rs) (queryCache s)
         in if length c1 > 1000
            then queryCache s' = AList.delete (fst (oldest c1)) c1
                 \<and> oldest c1 \<in> set c1
                 \<and> (\<forall>kv \<in> set c1. timestamp (snd (oldest c1)) \<le> timestamp (snd kv))
                 \<and> set (queryCache s') = set c1 - {oldest c1}
                 \<and> length (queryCache s') = 1000
            else queryCache s' = c1))"
proof (intro conjI impI)
  show "length (queryCache (searchQuery_calls hostname cs emptyState)) \<le> 1000"
    using searchQuery_calls_inv[OF emptyState_inv, of hostname cs] by (simp add: cacheInv_def)
next
  assume a: "cacheInv s \<and> searchQuery hostname ck up q cid s = (Live q' rs n sem ts, s')"
  then have inv: "cacheInv s" and call: "searchQuery hostname ck up q cid s = (Live q' rs n sem ts, s')"
    by simp_all
  show "cacheInv s'"
    using searchQuery_preserves_inv[OF inv, of hostname ck up q cid] call by simp
  let ?c1 = "AList.update (normalizeKey q) (newCacheEntry ck q cid rs) (queryCache s)"
  have s': "queryCache s' = cleanup ?c1"
    using call by (auto simp: searchQuery_cases split: option.splits sum.splits)
  have d: "distinct (map fst ?c1)" using inv by (simp add: cacheInv_def distinct_update)
  have l: "length ?c1 \<le> 1001"
    using inv length_update_le[of "normalizeKey q" "newCacheEntry ck q cid rs" "queryCache s"]
    by (simp add: cacheInv_def)
  have big: "queryCache s' = AList.delete (fst (oldest ?c1)) ?c1
                 \<and> oldest ?c1 \<in> set ?c1
                 \<and> (\<forall>kv \<in> set ?c1. timestamp (snd (oldest ?c1)) \<le> timestamp (snd kv))
                 \<and> set (queryCache s') = set ?c1 - {oldest ?c1}
                 \<and> length (queryCache s') = 1000" if gt: "length ?c1 > 1000"
  proof -
    have del: "queryCache s' = AList.delete (fst (oldest ?c1)) ?c1"
      using s' gt by (simp add: cleanup_def)
    have mem: "oldest ?c1 \<in> set ?c1" by (rule oldest_in_set) simp
    have "length ?c1 = 1001" using gt l by linarith
    with length_delete_distinct[OF d mem] del have len: "length (queryCache s') = 1000" by simp
    show ?thesis
      using del mem len set_delete_distinct[OF d mem] oldest_least[of _ ?c1] by simp
  qed
  have small: "queryCache s' = ?c1" if "\<not> length ?c1 > 1000"
    using s' that by (simp add: cleanup_def)
  show "let c1 = ?c1
         in if length c1 > 1000
            then queryCache s' = AList.delete (fst (oldest c1)) c1
                 \<and> oldest c1 \<in> set c1
                 \<and> (\<forall>kv \<in> set c1. timestamp (snd (oldest c1)) \<le> timestamp (snd kv))
                 \<and> set (queryCache s') = set c1 - {oldest c1}
                 \<and> length (queryCache s') = 1000
            else queryCache s' = c1"
  proof (cases "length ?c1 > 1000")
    case True
    show ?thesis unfolding Let_def if_P[OF True] by (rule big[OF True])
  next
    case False
    show ?thesis unfolding Let_def if_not_P[OF False] by (rule small[OF False])
  qed
qed


lemma fullCache_inv: "cacheInv fullCache \<and> length (queryCache fullCache) = 1000"
proof -
  have "inj_on (\<lambda>i. replicate (Suc i) CHR ''a'') A" for A :: "nat set"
    by (rule inj_onI) (metis length_replicate nat.inject)
  then have "distinct (map (\<lambda>i. replicate (Suc i) CHR ''a'') [0..<1000])"
    by (simp add: distinct_map)
  moreover have "map fst (map sampleEntry [0..<1000]) = map (\<lambda>i. replicate (Suc i) CHR ''a'') [0..<1000]"
    by (simp add: sampleEntry_def comp_def)
  ultimately have "distinct (map fst (map sampleEntry [0..<1000]))" by (simp only:)
  then show ?thesis by (simp add: cacheInv_def fullCache_def del: map_map)
qed

theorem searchQuery_capacity_witness:
  "cacheInv fullCache \<and> length (queryCache fullCache) = 1000
   \<and> (case searchQuery (\<lambda>u. Some u) (clockAt 5000) (ApiData True [] (Some [])) ''b'' ''c'' fullCache of
        (resp, s') \<Rightarrow>
          source resp = ''live'' \<and> length (queryCache s') = 1000
          \<and> set (queryCache s')
              = set (queryCache fullCache) \<union> {(''b'', newCacheEntry (clockAt 5000) ''b'' ''c'' [])}
                - {sampleEntry 0})"
proof -
  let ?ck = "clockAt 5000"
  let ?c = "queryCache fullCache"
  let ?e = "newCacheEntry ?ck ''b'' ''c'' []"
  let ?c1 = "AList.update (normalizeKey ''b'') ?e ?c"
  let ?sem = "analyzeSemantics ''b''"
  obtain resp s' where call: "searchQuery (\<lambda>u. Some u) ?ck (ApiData True [] (Some [])) ''b'' ''c'' fullCache = (resp, s')"
    by (cases "searchQuery (\<lambda>u. Some u) ?ck (ApiData True [] (Some [])) ''b'' ''c'' fullCache") blast
  have key: "normalizeKey ''b'' = ''b''"
    by (simp add: normalizeKey_def trim_def toLowerCase_def toLowerCase_char_def isUpperCase_def isTrimSpace_def)
  have nokey: "''b'' \<notin> fst ` set ?c"
    by (auto simp: fullCache_def sampleEntry_def)
  then have "map_of ?c ''b'' = None" by (simp only: map_of_eq_None_iff not_False_eq_True)
  then have miss: "freshEntry ?ck ''b'' fullCache = None"
    by (simp add: freshEntry_def)
  have livers: "liveResults (\<lambda>u. Some u) ''b'' (ApiData True [] (Some [])) = Inr []"
    by (simp add: liveResults_def)
  have resp: "resp = Live ''b'' [] 0 ?sem (tReturn ?ck)"
    using call miss livers by (simp add: searchQuery_cases key)
  have c1: "?c1 = ?c @ [(''b'', ?e)]"
    using nokey by (simp add: key update_new_key)
  have len: "length ?c1 = 1001" using fullCache_inv by (simp add: c1)
  have inv: "cacheInv fullCache" using fullCache_inv by simp
  have call': "searchQuery (\<lambda>u. Some u) ?ck (ApiData True [] (Some [])) ''b'' ''c'' fullCache
                = (Live ''b'' [] 0 ?sem (tReturn ?ck), s')"
    using call resp by simp
  have gt: "1000 < length ?c1" using len by simp
  have "cacheInv s' \<and>
        (let c1 = ?c1
         in if length c1 > 1000
            then queryCache s' = AList.delete (fst (oldest c1)) c1
                 \<and> oldest c1 \<in> set c1
                 \<and> (\<forall>kv \<in> set c1. timestamp (snd (oldest c1)) \<le> timestamp (snd kv))
                 \<and> set (queryCache s') = set c1 - {oldest c1}
                 \<and> length (queryCache s') = 1000
            else queryCache s' = c1)"
    using searchQuery_capacity[of "\<lambda>u. Some u" "[]" fullCache ?ck "ApiData True [] (Some [])" "''b''" "''c''"
            "''b''" "[]" 0 ?sem "tReturn ?ck" s'] inv call'
    by blast
  then have "queryCache s' = AList.delete (fst (oldest ?c1)) ?c1
                 \<and> oldest ?c1 \<in> set ?c1
                 \<and> (\<forall>kv \<in> set ?c1. timestamp (snd (oldest ?c1)) \<le> timestamp (snd kv))
                 \<and> set (queryCache s') = set ?c1 - {oldest ?c1}
                 \<and> length (queryCache s') = 1000"
    unfolding Let_def if_P[OF gt] by (rule conjunct2)
  then have facts: "oldest ?c1 \<in> set ?c1"
      "\<forall>kv \<in> set ?c1. timestamp (snd (oldest ?c1)) \<le> timestamp (snd kv)"
      "set (queryCache s') = set ?c1 - {oldest ?c1}" "length (queryCache s') = 1000"
    by blast+
  have "set ?c1 = set ?c \<union> {(''b'', ?e)}" unfolding c1 by simp
  then have set_c1: "set ?c1 = sampleEntry ` {0..<1000} \<union> {(''b'', ?e)}"
    by (simp add: fullCache_def)
  have first: "sampleEntry 0 \<in> set ?c1" unfolding set_c1 by simp
  then have "timestamp (snd (oldest ?c1)) \<le> timestamp (snd (sampleEntry 0))"
    using facts(2) by blast
  then have "timestamp (snd (oldest ?c1)) \<le> 0"
    by (simp add: sampleEntry_def)
  moreover have "kv = sampleEntry 0" if "kv \<in> set ?c1" and "timestamp (snd kv) \<le> 0" for kv
    using that unfolding set_c1 by (auto simp: sampleEntry_def newCacheEntry_def clockAt_def)
  ultimately have old: "oldest ?c1 = sampleEntry 0" using facts(1) by blast
  have "set (queryCache s') = set ?c \<union> {(''b'', ?e)} - {sampleEntry 0}"
    using facts(3) old unfolding c1 by simp
  then show ?thesis
    using fullCache_inv call resp facts(4) by simp
qed

lemma cleanup_map_of:
  "map_of (cleanup c) k \<noteq> map_of c k \<Longrightarrow> 1000 < length c \<and> k = fst (oldest c)"
  by (auto simp: cleanup_def delete_conv' split: if_splits)

text \<open>
  C3. With an entry \<open>e\<close> stored under the normalised key of the query, the call is
  answered from the cache exactly when \<open>tLookup - timestamp e < 300000\<close>, and then it
  returns the stored entry and changes nothing. Otherwise the live path runs: when it
  fails the state is unchanged, so the expired entry stays in the cache; when it succeeds
  the new entry is stored. In every case, a key whose cached value differs after the call
  is the key just stored, or the key of the oldest entry removed by the cleanup of a cache
  of more than 1000 entries.
\<close>

theorem searchQuery_ttl:
  assumes "map_of (queryCache s) (normalizeKey q) = Some e"
    and "searchQuery hostname ck up q cid s = (resp, s')"
  shows "(tLookup ck - timestamp e < 300000 \<longleftrightarrow> source resp = ''cache'')
       \<and> (tLookup ck - timestamp e < 300000 \<longrightarrow>
            resp = FromCache e (tAge ck - timestamp e) \<and> results_of resp = results e \<and> s' = s)
       \<and> (\<not> tLookup ck - timestamp e < 300000 \<longrightarrow>
            (case liveResults hostname (normalizeKey q) up of
               Inl err \<Rightarrow> resp = Failed q (message err) (tReturn ck) \<and> s' = s
             | Inr rs \<Rightarrow>
                 resp = Live q rs (length rs) (analyzeSemantics q) (tReturn ck)
                 \<and> queryCache s'
                     = cleanup (AList.update (normalizeKey q) (newCacheEntry ck q cid rs) (queryCache s))))
       \<and> (\<forall>k. map_of (queryCache s') k \<noteq> map_of (queryCache s) k \<longrightarrow>
            (\<exists>rs. liveResults hostname (normalizeKey q) up = Inr rs \<and> source resp = ''live''
               \<and> (k = normalizeKey q
                    \<or> 1000 < length (AList.update (normalizeKey q) (newCacheEntry ck q cid rs) (queryCache s))
                      \<and> k = fst (oldest (AList.update (normalizeKey q) (newCacheEntry ck q cid rs)
                                          (queryCache s))))))"
proof -
  let ?k = "normalizeKey q"
  let ?fresh = "tLookup ck - timestamp e < 300000"
  have fe: "freshEntry ck ?k s = (if ?fresh then Some e else None)"
    using assms(1) by (simp add: freshEntry_def CACHE_TTL_def)
  have hit: "resp = FromCache e (tAge ck - timestamp e) \<and> results_of resp = results e \<and> s' = s"
    if ?fresh
    using that assms(2) fe by (auto simp: searchQuery_cases)
  have miss: "(case liveResults hostname ?k up of
               Inl err \<Rightarrow> resp = Failed q (message err) (tReturn ck) \<and> s' = s
             | Inr rs \<Rightarrow>
                 resp = Live q rs (length rs) (analyzeSemantics q) (tReturn ck)
                 \<and> queryCache s' = cleanup (AList.update ?k (newCacheEntry ck q cid rs) (queryCache s)))"
    if "\<not> ?fresh"
    using that assms(2) fe by (auto simp: searchQuery_cases split: sum.splits)
  have src: "?fresh \<longleftrightarrow> source resp = ''cache''"
  proof (cases ?fresh)
    case True
    then show ?thesis using hit by simp
  next
    case False
    then show ?thesis using miss[OF False] by (auto split: sum.splits)
  qed
  have removed: "\<exists>rs. liveResults hostname ?k up = Inr rs \<and> source resp = ''live''
               \<and> (k = ?k
                    \<or> 1000 < length (AList.update ?k (newCacheEntry ck q cid rs) (queryCache s))
                      \<and> k = fst (oldest (AList.update ?k (newCacheEntry ck q cid rs) (queryCache s))))"
    if ch: "map_of (queryCache s') k \<noteq> map_of (queryCache s) k" for k
  proof (cases ?fresh)
    case True
    then show ?thesis using hit ch by simp
  next
    case False
    show ?thesis
    proof (cases "liveResults hostname ?k up")
      case (Inl err)
      then show ?thesis using miss[OF False] ch by simp
    next
      case (Inr rs)
      let ?c1 = "AList.update ?k (newCacheEntry ck q cid rs) (queryCache s)"
      have r: "resp = Live q rs (length rs) (analyzeSemantics q) (tReturn ck)"
        and c: "queryCache s' = cleanup ?c1"
        using miss[OF False] Inr by simp_all
      have "k = ?k \<or> 1000 < length ?c1 \<and> k = fst (oldest ?c1)"
      proof (cases "k = ?k")
        case True
        then show ?thesis by simp
      next
        case False
        then have "map_of ?c1 k = map_of (queryCache s) k" by (simp add: update_conv')
        with ch c have "map_of (cleanup ?c1) k \<noteq> map_of ?c1 k" by simp
        from cleanup_map_of[OF this] show ?thesis by simp
      qed
      then show ?thesis using Inr r by simp
    qed
  qed
  show ?thesis
  proof (intro conjI impI allI)
    show "?fresh \<longleftrightarrow> source resp = ''cache''" by (rule src)
  qed (use hit miss removed in blast)+
qed

theorem searchQuery_ttl_witness:
  "map_of (queryCache helloCache) (normalizeKey '' HELLO '') = Some (newCacheEntry (clockAt 0) ''Hello'' ''c'' [])
   \<and> source (fst (searchQuery (\<lambda>u. Some u) (clockAt 299999) (FetchRejected ''down'') '' HELLO '' ''d'' helloCache))
       = ''cache''
   \<and> source (fst (searchQuery (\<lambda>u. Some u) (clockAt 300000) (FetchRejected ''down'') '' HELLO '' ''d'' helloCache))
       \<noteq> ''cache''
   \<and> snd (searchQuery (\<lambda>u. Some u) (clockAt 300000) (FetchRejected ''down'') '' HELLO '' ''d'' helloCache)
       = helloCache"
proof -
  let ?e = "newCacheEntry (clockAt 0) ''Hello'' ''c'' []"
  let ?hit = "searchQuery (\<lambda>u. Some u) (clockAt 299999) (FetchRejected ''down'') '' HELLO '' ''d'' helloCache"
  let ?miss = "searchQuery (\<lambda>u. Some u) (clockAt 300000) (FetchRejected ''down'') '' HELLO '' ''d'' helloCache"
  have k: "normalizeKey '' HELLO '' = ''hello''"
    by (simp add: normalizeKey_def trim_def toLowerCase_def toLowerCase_char_def isUpperCase_def isTrimSpace_def
          char_of_def bit_Suc_0_iff)
  have m: "map_of (queryCache helloCache) (normalizeKey '' HELLO '') = Some ?e"
    by (simp add: k helloCache_def)
  have t0: "timestamp ?e = 0" by (simp add: newCacheEntry_def clockAt_def)
  have h1: "?hit = (fst ?hit, snd ?hit)" and h2: "?miss = (fst ?miss, snd ?miss)" by simp_all
  have fail: "liveResults (\<lambda>u. Some u) (normalizeKey '' HELLO '') (FetchRejected ''down'') = Inl (TypeError ''down'')"
    by (simp add: liveResults_def)
  have "source (fst ?hit) = ''cache''"
    using searchQuery_ttl[OF m h1] t0 by (simp add: clockAt_def)
  moreover have "source (fst ?miss) \<noteq> ''cache'' \<and> snd ?miss = helloCache"
    using searchQuery_ttl[OF m h2] t0 fail by (simp add: clockAt_def)
  ultimately show ?thesis using m by simp
qed

lemma liveResults_failure_modes:
  "isl (liveResults hostname k (FetchRejected msg))"
  "isl (liveResults hostname k (JsonRejected msg))"
  "isl (liveResults hostname k JsonNull)"
  "isl (liveResults hostname k (ApiData False err rs))"
  "isl (liveResults hostname k (ApiData True err None))"
  by (simp_all add: liveResults_def)

text \<open>
  C9. When no fresh cached entry answers the call and the upstream search fails (the
  fetch is rejected, the body is not JSON or is \<open>null\<close>, the response reports
  \<open>success = false\<close>, or its results cannot be mapped: see
  \<open>liveResults_failure_modes\<close>), the call returns the error response with
  \<open>source = "error"\<close> and no results, and neither the cache nor the semantic
  index changes.
\<close>

theorem searchQuery_upstream_failure:
  assumes "freshEntry ck (normalizeKey q) s = None"
    and "isl (liveResults hostname (normalizeKey q) up)"
    and "searchQuery hostname ck up q cid s = (resp, s')"
  shows "source resp = ''error'' \<and> results_of resp = [] \<and> s' = s
         \<and> queryCache s' = queryCache s \<and> semanticIndex s' = semanticIndex s
         \<and> resp = Failed q (message (projl (liveResults hostname (normalizeKey q) up))) (tReturn ck)"
  using assms by (cases "liveResults hostname (normalizeKey q) up") (auto simp: searchQuery_cases)

theorem searchQuery_upstream_failure_witness:
  "freshEntry (clockAt 7) (normalizeKey ''Rust Tutorial'') emptyState = None
   \<and> isl (liveResults (\<lambda>u. Some u) (normalizeKey ''Rust Tutorial'') (ApiData False ''quota exceeded'' None))
   \<and> searchQuery (\<lambda>u. Some u) (clockAt 7) (ApiData False ''quota exceeded'' None) ''Rust Tutorial'' ''c''
        emptyState
      = (Failed ''Rust Tutorial'' ''quota exceeded'' 7, emptyState)"
proof -
  let ?up = "ApiData False ''quota exceeded'' None"
  have f: "freshEntry (clockAt 7) (normalizeKey ''Rust Tutorial'') emptyState = None"
    by (simp add: freshEntry_def emptyState_def)
  have l: "isl (liveResults (\<lambda>u. Some u) (normalizeKey ''Rust Tutorial'') ?up)"
    by (simp add: liveResults_def)
  obtain resp s' where c: "searchQuery (\<lambda>u. Some u) (clockAt 7) ?up ''Rust Tutorial'' ''c'' emptyState = (resp, s')"
    by (metis prod.collapse)
  from searchQuery_upstream_failure[OF f l c]
  have "s' = emptyState"
    and "resp = Failed ''Rust Tutorial'' (message (projl (liveResults (\<lambda>u. Some u) (normalizeKey ''Rust Tutorial'') ?up))) (tReturn (clockAt 7))"
    by simp_all
  then have "resp = Failed ''Rust Tutorial'' ''quota exceeded'' 7" "s' = emptyState"
    by (simp_all add: liveResults_def message_def clockAt_def)
  with c f l show ?thesis by simp
qed


section \<open>Properties of the stream broker\<close>

lemma res_write_other [simp]:
  "activeStreams (res_write r ev s) = activeStreams s"
  "streamMetrics (res_write r ev s) = streamMetrics s"
  "timers (res_write r ev s) = timers s"
  "length (responses (res_write r ev s)) = length (responses s)"
  by (simp_all add: res_write_def)

lemma res_write_nth:
  "responses (res_write r ev s) ! i =
     (if i = r \<and> r < length (responses s) \<and> \<not> ended (responses s ! r)
      then (responses s ! r)\<lparr> written := written (responses s ! r) @ [ev] \<rparr>
      else responses s ! i)"
  by (simp add: res_write_def)

lemma fold_res_write_other [simp]:
  "activeStreams (fold (\<lambda>cb. res_write cb ev) ls s) = activeStreams s"
  "streamMetrics (fold (\<lambda>cb. res_write cb ev) ls s) = streamMetrics s"
  "timers (fold (\<lambda>cb. res_write cb ev) ls s) = timers s"
  "length (responses (fold (\<lambda>cb. res_write cb ev) ls s)) = length (responses s)"
  by (induction ls arbitrary: s; simp)+

lemma fold_res_write_nth:
  "responses (fold (\<lambda>cb. res_write cb ev) ls s) ! i =
     (if i < length (responses s) \<and> \<not> ended (responses s ! i)
      then (responses s ! i)\<lparr> written := written (responses s ! i) @ replicate (count_list ls i) ev \<rparr>
      else responses s ! i)"
proof (induction ls arbitrary: s)
  case Nil
  then show ?case by simp
next
  case (Cons l ls)
  show ?case
    by (simp add: Cons.IH res_write_nth replicate_app_Cons_same)
qed

lemma fold_chunks_nth:
  "r < length (responses s) \<Longrightarrow> \<not> ended (responses s ! r) \<Longrightarrow>
   responses (fold (\<lambda>c. res_write r (event_of c)) cs s) ! r
     = (responses s ! r)\<lparr> written := written (responses s ! r) @ map event_of cs \<rparr>"
  by (induction cs arbitrary: s) (simp_all add: res_write_nth)

lemma fold_chunks_other [simp]:
  "activeStreams (fold (\<lambda>c. res_write r (event_of c)) cs s) = activeStreams s"
  "streamMetrics (fold (\<lambda>c. res_write r (event_of c)) cs s) = streamMetrics s"
  "timers (fold (\<lambda>c. res_write r (event_of c)) cs s) = timers s"
  "length (responses (fold (\<lambda>c. res_write r (event_of c)) cs s)) = length (responses s)"
  by (induction cs arbitrary: s; simp)+

lemma fold_chunks_nth_other:
  "i \<noteq> r \<Longrightarrow> responses (fold (\<lambda>c. res_write r (event_of c)) cs s) ! i = responses s ! i"
  by (induction cs arbitrary: s) (simp_all add: res_write_nth)


lemma res_end_other [simp]:
  "activeStreams (res_end r s) = activeStreams s"
  "timers (res_end r s) = timers s"
  "length (responses (res_end r s)) = length (responses s)"
  by (simp_all add: res_end_def)

lemma res_end_nth: "i \<noteq> r \<Longrightarrow> responses (res_end r s) ! i = responses s ! i"
  by (simp add: res_end_def)

lemma step_emit:
  assumes "attached r sid s"
  shows "attached r sid (step (Emit i d ty now) s)
         \<and> written (responses (step (Emit i d ty now) s) ! r)
             = written (responses s ! r) @ emitted sid [Emit i d ty now] s"
proof (cases "activeStreams s i")
  case None
  then show ?thesis using assms by (simp add: streamChunk_def)
next
  case (Some st)
  have r: "r < length (responses s)" "\<not> ended (responses s ! r)"
    and cnt: "count_list (listeners st) r = (if i = sid then 1 else 0)"
    using assms Some by (auto simp: attached_def)
  let ?c = "\<lparr> type_c = ty, data_c = d, timestamp_c = now \<rparr>"
  let ?s1 = "s\<lparr> activeStreams := (activeStreams s)(i \<mapsto> st\<lparr> chunks := chunks st @ [?c] \<rparr>),
                  streamMetrics := (streamMetrics s)\<lparr> chunksStreamed := chunksStreamed (streamMetrics s) + 1 \<rparr> \<rparr>"
  let ?s2 = "fold (\<lambda>cb. res_write cb (event_of ?c)) (listeners st) ?s1"
  have st: "step (Emit i d ty now) s = ?s2" and ok: "fst (streamChunk i d ty now s)"
    using Some by (simp_all add: streamChunk_def Let_def)
  have nth: "responses ?s2 ! r
      = (responses s ! r)\<lparr> written := written (responses s ! r) @ replicate (count_list (listeners st) r) (event_of ?c) \<rparr>"
    using r by (simp add: fold_res_write_nth)
  have wr: "written (responses ?s2 ! r) = written (responses s ! r) @ emitted sid [Emit i d ty now] s"
    using nth cnt ok by (simp add: event_of_def)
  have en: "\<not> ended (responses ?s2 ! r)" using nth r by simp
  have att: "attached r sid ?s2"
    unfolding attached_def wellFormed_def
    using assms Some r en by (auto simp: attached_def wellFormed_def)
  show ?thesis using st wr att by simp
qed

lemma step_close:
  assumes "attached r sid s"
  shows "attached r sid (step (Close i reason now) s)
         \<and> written (responses (step (Close i reason now) s) ! r)
             = written (responses s ! r) @ emitted sid [Close i reason now] s"
  using assms
  by (cases "activeStreams s i") (auto simp: closeStream_def attached_def wellFormed_def)

lemma step_timer:
  assumes "attached r sid s"
  shows "attached r sid (step (Timer i) s)
         \<and> written (responses (step (Timer i) s) ! r)
             = written (responses s ! r) @ emitted sid [Timer i] s"
  using assms
  by (auto simp: timerFires_def attached_def wellFormed_def)

lemma step_create:
  assumes "attached r sid s" and "i \<noteq> sid"
  shows "attached r sid (step (Create i cid q now) s)
         \<and> written (responses (step (Create i cid q now) s) ! r)
             = written (responses s ! r) @ emitted sid [Create i cid q now] s"
  using assms
  by (auto simp: createStream_def Let_def attached_def wellFormed_def)

lemma step_disconnect:
  assumes "attached r sid s" and "r' \<noteq> r"
  shows "attached r sid (step (Disconnect r' i now) s)
         \<and> written (responses (step (Disconnect r' i now) s) ! r)
             = written (responses s ! r) @ emitted sid [Disconnect r' i now] s"
  using assms
  by (cases "activeStreams s i")
     (auto simp: clientDisconnects_def closeStream_def attached_def wellFormed_def res_end_nth)


lemma handleSSE_found:
  assumes "activeStreams s i = Some st"
  shows "handleSSE i s =
           (length (responses s),
            (fold (\<lambda>c. res_write (length (responses s)) (event_of c)) (chunks st)
               (s\<lparr> responses := responses s @ [\<lparr> written = [], ended = False \<rparr>] \<rparr>))
              \<lparr> activeStreams := (activeStreams s)(i \<mapsto> st\<lparr> listeners := listeners st @ [length (responses s)] \<rparr>) \<rparr>)"
  using assms by (simp add: handleSSE_def getStream_def subscribeStream_def Let_def)

lemma handleSSE_missing:
  assumes "activeStreams s i = None"
  shows "handleSSE i s =
           (length (responses s),
            res_end (length (responses s)) (res_write (length (responses s)) StreamNotFound
               (s\<lparr> responses := responses s @ [\<lparr> written = [], ended = False \<rparr>] \<rparr>)))"
  using assms by (simp add: handleSSE_def getStream_def Let_def)

lemma handleSSE_attaches:
  assumes "wellFormed s" and "activeStreams s sid = Some st" and "handleSSE sid s = (r, s1)"
  shows "attached r sid s1 \<and> written (responses s1 ! r) = map event_of (chunks st)"
proof -
  let ?n = "length (responses s)"
  let ?s0 = "s\<lparr> responses := responses s @ [\<lparr> written = [], ended = False \<rparr>] \<rparr>"
  let ?f = "fold (\<lambda>c. res_write ?n (event_of c)) (chunks st) ?s0"
  have r: "r = ?n"
    and s1: "s1 = ?f\<lparr> activeStreams := (activeStreams s)(sid \<mapsto> st\<lparr> listeners := listeners st @ [?n] \<rparr>) \<rparr>"
    using assms(3) handleSSE_found[OF assms(2)] by auto
  have nth: "responses ?f ! ?n = \<lparr> written = map event_of (chunks st), ended = False \<rparr>"
    by (subst fold_chunks_nth) simp_all
  have len: "length (responses s1) = Suc ?n" by (simp add: s1)
  have fresh: "count_list (listeners st') ?n = 0" if "activeStreams s i = Some st'" for i st'
    using assms(1) that by (fastforce simp: wellFormed_def count_list_0_iff)
  have wf: "wellFormed s1"
    using assms(1,2) unfolding wellFormed_def s1
    by (auto simp: less_Suc_eq split: if_splits)
  have cnt: "count_list (listeners st') r = (if i = sid then 1 else 0)"
    if "activeStreams s1 i = Some st'" for i st'
    using that fresh[OF assms(2)] fresh[of i st'] by (auto simp: s1 r split: if_splits)
  show ?thesis
    unfolding attached_def using wf cnt nth len by (simp add: s1 r)
qed

lemma step_subscribe:
  assumes "attached r sid s"
  shows "attached r sid (step (Subscribe i) s)
         \<and> written (responses (step (Subscribe i) s) ! r)
             = written (responses s ! r) @ emitted sid [Subscribe i] s"
proof -
  let ?n = "length (responses s)"
  let ?s0 = "s\<lparr> responses := responses s @ [\<lparr> written = [], ended = False \<rparr>] \<rparr>"
  have r: "r < ?n" "\<not> ended (responses s ! r)" and wf: "wellFormed s"
    and cnt: "\<And>j st. activeStreams s j = Some st \<Longrightarrow> count_list (listeners st) r = (if j = sid then 1 else 0)"
    using assms by (auto simp: attached_def)
  have ne: "r \<noteq> ?n" using r by simp
  show ?thesis
  proof (cases "activeStreams s i")
    case None
    let ?s' = "res_end ?n (res_write ?n StreamNotFound ?s0)"
    have st: "step (Subscribe i) s = ?s'" using handleSSE_missing[OF None] by simp
    have nth: "responses ?s' ! r = responses s ! r"
      using r ne by (simp add: res_end_nth res_write_nth nth_append)
    have "attached r sid ?s'"
      unfolding attached_def wellFormed_def
      using r wf cnt nth by (auto simp: wellFormed_def less_Suc_eq)
    then show ?thesis using st nth by simp
  next
    case (Some st)
    let ?f = "fold (\<lambda>c. res_write ?n (event_of c)) (chunks st) ?s0"
    let ?s' = "?f\<lparr> activeStreams := (activeStreams s)(i \<mapsto> st\<lparr> listeners := listeners st @ [?n] \<rparr>) \<rparr>"
    have st': "step (Subscribe i) s = ?s'" using handleSSE_found[OF Some] by simp
    have nth: "responses ?s' ! r = responses s ! r"
      using r ne by (simp add: fold_chunks_nth_other nth_append)
    have wf': "wellFormed ?s'"
      using wf Some unfolding wellFormed_def by (auto simp: less_Suc_eq split: if_splits)
    have cnt': "count_list (listeners st'') r = (if j = sid then 1 else 0)"
      if "activeStreams ?s' j = Some st''" for j st''
      using that cnt[of j] cnt[OF Some] ne by (auto split: if_splits)
    have "attached r sid ?s'"
      unfolding attached_def using r wf' cnt' nth by simp
    then show ?thesis using st' nth by simp
  qed
qed

lemma step_attached:
  assumes "attached r sid s" and "keepsSubscriber r sid op"
  shows "attached r sid (step op s)
         \<and> written (responses (step op s) ! r) = written (responses s ! r) @ emitted sid [op] s"
proof (cases op)
  case (Create i cid q now)
  then show ?thesis using assms step_create by simp
next
  case (Emit i d ty now)
  then show ?thesis using assms step_emit by simp
next
  case (Close i reason now)
  then show ?thesis using assms step_close by simp
next
  case (Subscribe i)
  then show ?thesis using assms step_subscribe by simp
next
  case (Disconnect r' i now)
  then show ?thesis using assms step_disconnect by simp
next
  case (Timer i)
  then show ?thesis using assms step_timer by simp
qed

lemma emitted_Cons: "emitted sid (op # ops) s = emitted sid [op] s @ emitted sid ops (step op s)"
  by simp

lemma run_attached:
  assumes "attached r sid s" and "list_all (keepsSubscriber r sid) ops"
  shows "attached r sid (run ops s)
         \<and> written (responses (run ops s) ! r) = written (responses s ! r) @ emitted sid ops s"
  using assms
proof (induction ops arbitrary: s)
  case Nil
  then show ?case by (simp add: run_def)
next
  case (Cons op ops)
  have k: "keepsSubscriber r sid op" and ks: "list_all (keepsSubscriber r sid) ops"
    using Cons.prems(2) by simp_all
  from step_attached[OF Cons.prems(1) k]
  have a: "attached r sid (step op s)"
    and w: "written (responses (step op s) ! r) = written (responses s ! r) @ emitted sid [op] s"
    by simp_all
  from Cons.IH[OF a ks]
  have "attached r sid (run ops (step op s))"
    and "written (responses (run ops (step op s)) ! r)
           = written (responses (step op s) ! r) @ emitted sid ops (step op s)"
    by simp_all
  then show ?case
    using w emitted_Cons[of sid op ops s] by (simp add: run_def del: emitted.simps)
qed


lemma initialStreams_wellFormed: "wellFormed initialStreams"
  by (simp add: wellFormed_def initialStreams_def)

lemma step_wellFormed:
  assumes "wellFormed s"
  shows "wellFormed (step op s)"
proof (cases op)
  case (Create i cid q now)
  then show ?thesis using assms by (auto simp: wellFormed_def createStream_def Let_def)
next
  case (Emit i d ty now)
  then show ?thesis using assms
    by (cases "activeStreams s i") (auto simp: wellFormed_def streamChunk_def Let_def)
next
  case (Close i reason now)
  then show ?thesis using assms
    by (cases "activeStreams s i") (auto simp: wellFormed_def closeStream_def)
next
  case (Subscribe i)
  show ?thesis
  proof (cases "activeStreams s i")
    case None
    then show ?thesis using assms Subscribe handleSSE_missing[OF None]
      by (auto simp: wellFormed_def less_Suc_eq)
  next
    case (Some st)
    then show ?thesis using assms Subscribe handleSSE_found[OF Some]
      by (auto simp: wellFormed_def less_Suc_eq split: if_splits)
  qed
next
  case (Disconnect r i now)
  then show ?thesis using assms
    by (cases "activeStreams s i") (auto simp: wellFormed_def clientDisconnects_def closeStream_def)
next
  case (Timer i)
  then show ?thesis using assms by (auto simp: wellFormed_def timerFires_def)
qed

lemma run_wellFormed: "wellFormed s \<Longrightarrow> wellFormed (run ops s)"
  unfolding run_def by (induction ops arbitrary: s) (simp_all add: step_wellFormed)

lemma run_append: "run (xs @ ys) s = run ys (run xs s)"
  by (simp add: run_def)

lemma run_Cons: "run (op # ops) s = run ops (step op s)"
  by (simp add: run_def)

text \<open>What one operation does to the buffer of a stream that it does not create.\<close>

lemma step_buffer:
  assumes "\<not> recreates sid op"
  shows "case activeStreams (step op s) sid of
           None \<Rightarrow> True
         | Some st' \<Rightarrow>
             (\<exists>st. activeStreams s sid = Some st
                  \<and> map event_of (chunks st') = map event_of (chunks st) @ emitted sid [op] s)"
proof (cases op)
  case (Create i cid q now)
  then show ?thesis using assms by (auto simp: createStream_def Let_def split: option.splits)
next
  case (Emit i d ty now)
  then show ?thesis
    by (cases "activeStreams s i")
       (auto simp: streamChunk_def Let_def event_of_def split: option.splits if_splits)
next
  case (Close i reason now)
  then show ?thesis
    by (cases "activeStreams s i") (auto simp: closeStream_def split: option.splits if_splits)
next
  case (Subscribe i)
  show ?thesis
  proof (cases "activeStreams s i")
    case None
    then show ?thesis using Subscribe handleSSE_missing[OF None] by (auto split: option.splits)
  next
    case (Some st)
    then show ?thesis using Subscribe handleSSE_found[OF Some]
      by (auto split: option.splits if_splits)
  qed
next
  case (Disconnect r i now)
  then show ?thesis
    by (cases "activeStreams s i")
       (auto simp: clientDisconnects_def closeStream_def split: option.splits if_splits)
next
  case (Timer i)
  then show ?thesis by (auto simp: timerFires_def split: option.splits if_splits)
qed

lemma run_stays_deleted:
  assumes "activeStreams s sid = None" and "list_all (\<lambda>op. \<not> recreates sid op) ops"
  shows "activeStreams (run ops s) sid = None"
  using assms
proof (induction ops arbitrary: s)
  case Nil
  then show ?case by (simp add: run_def)
next
  case (Cons op ops)
  have "\<not> recreates sid op" using Cons.prems(2) by simp
  from step_buffer[OF this, of s] Cons.prems(1)
  have "activeStreams (step op s) sid = None" by (auto split: option.splits)
  then show ?case using Cons by (simp add: run_Cons)
qed

lemma run_buffer:
  assumes "activeStreams s sid = Some st" and "list_all (\<lambda>op. \<not> recreates sid op) ops"
    and "activeStreams (run ops s) sid = Some st'"
  shows "map event_of (chunks st') = map event_of (chunks st) @ emitted sid ops s"
  using assms
proof (induction ops arbitrary: s st)
  case Nil
  then show ?case by (simp add: run_def)
next
  case (Cons op ops)
  have nc: "\<not> recreates sid op" and ncs: "list_all (\<lambda>op. \<not> recreates sid op) ops"
    using Cons.prems(2) by simp_all
  show ?case
  proof (cases "activeStreams (step op s) sid")
    case None
    from run_stays_deleted[OF None ncs] Cons.prems(3) show ?thesis by (simp add: run_Cons)
  next
    case (Some st1)
    with step_buffer[OF nc, of s] Cons.prems(1)
    have one: "map event_of (chunks st1) = map event_of (chunks st) @ emitted sid [op] s" by auto
    have "map event_of (chunks st') = map event_of (chunks st1) @ emitted sid ops (step op s)"
      using Cons.IH[OF Some ncs] Cons.prems(3) by (simp add: run_Cons)
    then show ?thesis using one emitted_Cons[of sid op ops s] by (simp del: emitted.simps)
  qed
qed

text \<open>
  C6. Take a stream from its creation, let any operations that do not create another
  stream under its id run, and let a subscriber attach while the stream exists. What is
  written to the subscriber at once is the list of the chunks emitted on the stream so
  far, in emission order; after any further operations, other than the disconnect of that
  subscriber and another creation under the same id, what has been written to it is that
  list followed by the chunks emitted on the stream since, in emission order: each chunk
  once, none missing.
\<close>

theorem late_subscriber_replay_then_live:
  assumes "s0 = snd (createStream sid cid q t (run pre initialStreams))"
    and "list_all (\<lambda>op. \<not> recreates sid op) earlier"
    and "activeStreams (run earlier s0) sid = Some st"
    and "handleSSE sid (run earlier s0) = (r, s1)"
    and "list_all (keepsSubscriber r sid) later"
  shows "map event_of (chunks st) = emitted sid earlier s0
       \<and> written (responses s1 ! r) = emitted sid earlier s0
       \<and> written (responses (run later s1) ! r) = emitted sid earlier s0 @ emitted sid later s1"
proof -
  have wf0: "wellFormed s0"
    using step_wellFormed[OF run_wellFormed[OF initialStreams_wellFormed], of "Create sid cid q t" pre]
    by (simp add: assms(1))
  have wf: "wellFormed (run earlier s0)" using wf0 by (rule run_wellFormed)
  have "\<exists>st0. activeStreams s0 sid = Some st0 \<and> chunks st0 = []"
    by (simp add: assms(1) createStream_def Let_def)
  then obtain st0 where st0: "activeStreams s0 sid = Some st0" "chunks st0 = []" by blast
  have buf: "map event_of (chunks st) = emitted sid earlier s0"
    using run_buffer[OF st0(1) assms(2) assms(3)] st0(2) by simp
  from handleSSE_attaches[OF wf assms(3) assms(4)]
  have att: "attached r sid s1" and replay: "written (responses s1 ! r) = map event_of (chunks st)"
    by simp_all
  from run_attached[OF att assms(5)]
  have "written (responses (run later s1) ! r) = written (responses s1 ! r) @ emitted sid later s1"
    by simp
  then show ?thesis using buf replay by simp
qed

theorem late_subscriber_replay_then_live_witness:
  "fst (handleSSE ''s'' (run [Emit ''s'' ''0'' ''result'' 1, Emit ''s'' ''1'' ''result'' 2]
          (snd (createStream ''s'' ''c'' ''q'' 0 (run [] initialStreams))))) = 0
   \<and> written (responses
        (run [Emit ''s'' ''2'' ''result'' 3, Emit ''s'' ''done'' ''complete'' 4, Close ''s'' ''complete'' 5]
          (snd (handleSSE ''s'' (run [Emit ''s'' ''0'' ''result'' 1, Emit ''s'' ''1'' ''result'' 2]
             (snd (createStream ''s'' ''c'' ''q'' 0 (run [] initialStreams))))))) ! 0)
      = [ChunkEvent ''result'' ''0'', ChunkEvent ''result'' ''1'', ChunkEvent ''result'' ''2'',
         ChunkEvent ''complete'' ''done'']"
proof -
  let ?s0 = "snd (createStream ''s'' ''c'' ''q'' 0 (run [] initialStreams))"
  let ?earlier = "[Emit ''s'' ''0'' ''result'' 1, Emit ''s'' ''1'' ''result'' 2]"
  let ?later = "[Emit ''s'' ''2'' ''result'' 3, Emit ''s'' ''done'' ''complete'' 4, Close ''s'' ''complete'' 5]"
  let ?st = "\<lparr> id_s = ''s'', clientId_s = ''c'', query_s = ''q'', created = 0,
               chunks = [\<lparr> type_c = ''result'', data_c = ''0'', timestamp_c = 1 \<rparr>,
                         \<lparr> type_c = ''result'', data_c = ''1'', timestamp_c = 2 \<rparr>],
               status = active, listeners = [], closedAt = None, closeReason = None \<rparr>"
  let ?s1 = "snd (handleSSE ''s'' (run ?earlier ?s0))"
  have e: "list_all (\<lambda>op. \<not> recreates ''s'' op) ?earlier" by simp
  have st: "activeStreams (run ?earlier ?s0) ''s'' = Some ?st"
    by (simp add: run_def createStream_def streamChunk_def initialStreams_def Let_def)
  have r: "fst (handleSSE ''s'' (run ?earlier ?s0)) = 0"
    by (simp add: run_def createStream_def streamChunk_def initialStreams_def Let_def
          handleSSE_def getStream_def subscribeStream_def)
  then have h: "handleSSE ''s'' (run ?earlier ?s0) = (0, ?s1)"
    by (metis prod.collapse)
  have l: "list_all (keepsSubscriber 0 ''s'') ?later" by simp
  have em1: "emitted ''s'' ?earlier ?s0 = [ChunkEvent ''result'' ''0'', ChunkEvent ''result'' ''1'']"
    by (simp add: run_def createStream_def streamChunk_def initialStreams_def Let_def)
  have s1_stream: "activeStreams ?s1 ''s'' \<noteq> None"
    using st by (simp add: handleSSE_found[OF st])
  have em2: "emitted ''s'' ?later ?s1 = [ChunkEvent ''result'' ''2'', ChunkEvent ''complete'' ''done'']"
    using st by (auto simp: handleSSE_found[OF st] streamChunk_def Let_def closeStream_def)
  from late_subscriber_replay_then_live[OF refl e st h l]
  have "written (responses (run ?later ?s1) ! 0) = emitted ''s'' ?earlier ?s0 @ emitted ''s'' ?later ?s1"
    by simp
  then show ?thesis using r em1 em2 by simp
qed

text \<open>
  C5. The claim: \<open>streamChunk\<close> returns false when the stream does not exist and
  also when its status is closed. \<open>streamChunk\<close> never reads the status: on the
  closed stream of \<open>closedExample\<close> it returns true and appends the chunk.
\<close>

theorem streamChunk_closed_stream_counterexample:
  "map_option status (activeStreams closedExample ''s1'') = Some closed
   \<and> fst (streamChunk ''s1'' ''late'' ''result'' 3 closedExample) = True
   \<and> map_option (\<lambda>st. map data_c (chunks st))
        (activeStreams (snd (streamChunk ''s1'' ''late'' ''result'' 3 closedExample)) ''s1'')
      = Some [''late'']"
  by (simp add: closedExample_def closeStream_def createStream_def streamChunk_def
        initialStreams_def Let_def)

text \<open>
  C5, as the program has it. \<open>streamChunk\<close> returns false exactly when no stream
  with the id exists, and then changes nothing. On an existing stream, whatever its
  status, it returns true, appends the chunk to the buffer, leaves the status as it is,
  counts the chunk, and writes the chunk's event to every open response once for each
  time the response is among the stream's listeners.
\<close>

theorem streamChunk_false_only_when_missing:
  "(fst (streamChunk sid d ty now s) \<longleftrightarrow> activeStreams s sid \<noteq> None)
   \<and> (activeStreams s sid = None \<longrightarrow> snd (streamChunk sid d ty now s) = s)
   \<and> (\<forall>st. activeStreams s sid = Some st \<longrightarrow>
         map_option chunks (activeStreams (snd (streamChunk sid d ty now s)) sid)
           = Some (chunks st @ [\<lparr> type_c = ty, data_c = d, timestamp_c = now \<rparr>])
         \<and> map_option status (activeStreams (snd (streamChunk sid d ty now s)) sid) = Some (status st)
         \<and> chunksStreamed (streamMetrics (snd (streamChunk sid d ty now s)))
             = chunksStreamed (streamMetrics s) + 1
         \<and> (\<forall>r < length (responses s). \<not> ended (responses s ! r) \<longrightarrow>
               written (responses (snd (streamChunk sid d ty now s)) ! r)
                 = written (responses s ! r) @ replicate (count_list (listeners st) r) (ChunkEvent ty d)))"
proof (cases "activeStreams s sid")
  case None
  then show ?thesis by (simp add: streamChunk_def)
next
  case (Some st)
  then show ?thesis
    by (simp add: streamChunk_def Let_def fold_res_write_nth event_of_def)
qed

theorem streamChunk_false_only_when_missing_witness:
  "activeStreams closedExample ''s1'' \<noteq> None
   \<and> activeStreams closedExample ''s2'' = None
   \<and> fst (streamChunk ''s1'' ''late'' ''result'' 3 closedExample)
   \<and> \<not> fst (streamChunk ''s2'' ''late'' ''result'' 3 closedExample)
   \<and> snd (streamChunk ''s2'' ''late'' ''result'' 3 closedExample) = closedExample"
proof -
  have a: "activeStreams closedExample ''s1'' \<noteq> None"
    by (simp add: closedExample_def closeStream_def createStream_def initialStreams_def Let_def)
  have b: "activeStreams closedExample ''s2'' = None"
    by (simp add: closedExample_def closeStream_def createStream_def initialStreams_def Let_def)
  show ?thesis
    using a b streamChunk_false_only_when_missing[of "''s1''" "''late''" "''result''" 3 closedExample]
      streamChunk_false_only_when_missing[of "''s2''" "''late''" "''result''" 3 closedExample]
    by blast
qed


section \<open>Properties of the orchestrator\<close>

lemma registry_priorities:
  "map (\<lambda>(k, sv). (k, priority sv)) (initializeServers webUrl bubbleUrl)
     = [(''webSearchMCP'', 1), (''bubbleSearch'', 2)]"
  by (simp add: initializeServers_def)

lemma getServer_registered:
  assumes "servers orch = initializeServers webUrl bubbleUrl"
  shows "getServer (servers orch) ''webSearchMCP'' \<noteq> Undefined"
    and "getServer (servers (orch\<lparr> requests := rq \<rparr>)) nm = getServer (servers orch) nm"
  using assms by (simp_all add: getServer_def initializeServers_def)

lemma setHealth_fields [simp]:
  "servers (setHealth nm h orch) = servers orch"
  "requests (setHealth nm h orch) = requests orch"
  by (simp_all add: setHealth_def)

text \<open>
  C7. A search that asks for the first-priority provider \<open>webSearchMCP\<close> (by name
  or by default), on a fresh request log. If the health probe is rejected, the requests
  made are the probe and one call to the alternate \<open>bubbleSearch\<close>; if the probe
  succeeds and the direct call is rejected, they are the probe, the direct call and one
  call to the alternate. In both cases the result is built from the outcome of that one
  alternate call: when it resolves, \<open>success\<close> and \<open>failover\<close> are true and
  the serving provider is \<open>bubbleSearch\<close>; when it is rejected, \<open>success\<close>
  is false, and no further request is made.
\<close>

theorem executeSearch_single_failover:
  assumes "servers orch = initializeServers webUrl bubbleUrl"
    and "requests orch = []"
    and "map_of options ''server'' = None \<or> map_of options ''server'' = Some ''webSearchMCP''"
    and "executeSearch net now isoNow q options orch = (res, orch')"
  shows "(rejected (net 0 (healthRequest orch)) \<longrightarrow>
            requests orch' = [healthRequest orch, alternateRequest orch q options]
            \<and> res = failoverResult isoNow (net 1 (alternateRequest orch q options)))
       \<and> (\<not> rejected (net 0 (healthRequest orch)) \<and> rejected (net 1 (directRequest orch q options)) \<longrightarrow>
            requests orch' = [healthRequest orch, directRequest orch q options,
                              alternateRequest orch q options]
            \<and> res = failoverResult isoNow (net 2 (alternateRequest orch q options)))
       \<and> (\<forall>out. res = failoverResult isoNow out \<longrightarrow>
              (if rejected out then \<not> success res
               else success res \<and> failover res \<and> served_by res = Some ''bubbleSearch''))"
proof -
  have fr: "if rejected out then \<not> success (failoverResult isoNow out)
            else success (failoverResult isoNow out) \<and> failover (failoverResult isoNow out)
                 \<and> served_by (failoverResult isoNow out) = Some ''bubbleSearch''" for out
    by (cases out) simp_all
  have sv: "(case map_of options ''server'' of None \<Rightarrow> ''webSearchMCP'' | Some sv \<Rightarrow> sv) = ''webSearchMCP''"
    using assms(3) by auto
  have reg: "getServer (servers orch) ''webSearchMCP'' \<noteq> Undefined"
    using getServer_registered(1)[OF assms(1)] .
  have main: "(rejected (net 0 (healthRequest orch)) \<longrightarrow>
            requests orch' = [healthRequest orch, alternateRequest orch q options]
            \<and> res = failoverResult isoNow (net 1 (alternateRequest orch q options)))
       \<and> (\<not> rejected (net 0 (healthRequest orch)) \<and> rejected (net 1 (directRequest orch q options)) \<longrightarrow>
            requests orch' = [healthRequest orch, directRequest orch q options,
                              alternateRequest orch q options]
            \<and> res = failoverResult isoNow (net 2 (alternateRequest orch q options)))"
  proof (cases "net 0 (healthRequest orch)")
    case (Rejected msg)
    then show ?thesis
      using assms(2,4) sv reg
      by (cases "net 1 (alternateRequest orch q options)";
          cases "getServer (servers orch) ''webSearchMCP''")
         (auto simp: executeSearch_def checkHealth_def send_def fallbackSearch_def Let_def
            healthRequest_def alternateRequest_def)
  next
    case (Resolved d)
    show ?thesis
    proof (cases "net 1 (directRequest orch q options)")
      case (Rejected msg)
      then show ?thesis
        using assms(2,4) sv reg Resolved
        by (cases "net 2 (alternateRequest orch q options)";
            cases "getServer (servers orch) ''webSearchMCP''")
           (auto simp: executeSearch_def checkHealth_def send_def fallbackSearch_def Let_def
              healthRequest_def alternateRequest_def directRequest_def numeral_2_eq_2)
    next
      case Resolved2: (Resolved d2)
      then show ?thesis
        using assms(2,4) sv reg Resolved
        by (cases "getServer (servers orch) ''webSearchMCP''")
           (auto simp: executeSearch_def checkHealth_def send_def fallbackSearch_def Let_def
              healthRequest_def alternateRequest_def directRequest_def numeral_2_eq_2)
    qed
  qed
  show ?thesis using main fr by blast
qed

theorem executeSearch_single_failover_witness:
  "executeSearch (\<lambda>n req. if n = 0 then Rejected ''ECONNREFUSED'' else Resolved ''[results]'')
      5 ''2025-01-01T00:00:00.000Z'' ''rust'' [] (newOrchestrator None None)
   = (FailedOver ''bubbleSearch'' ''[results]'' ''webSearchMCP'' ''2025-01-01T00:00:00.000Z'',
      (newOrchestrator None None)
        \<lparr> serverHealth := [''webSearchMCP'' \<mapsto> \<lparr> status_h = ''unhealthy'', error_h = Some ''ECONNREFUSED'',
                                                timestamp_h = 5 \<rparr>],
          requests := [Get ''http://localhost:3001/health'',
                       Post ''http://localhost:3002/search'' [(''query'', ''rust'')]] \<rparr>)"
proof -
  let ?net = "\<lambda>n req. if n = (0::nat) then Rejected ''ECONNREFUSED'' else Resolved ''[results]''"
  let ?orch = "newOrchestrator None None"
  let ?call = "executeSearch ?net 5 ''2025-01-01T00:00:00.000Z'' ''rust'' [] ?orch"
  have a: "servers ?orch = initializeServers None None" and b: "requests ?orch = []"
    by (simp_all add: newOrchestrator_def)
  have c: "map_of ([]::(string \<times> string) list) ''server'' = None \<or> map_of ([]::(string \<times> string) list) ''server'' = Some ''webSearchMCP''"
    by simp
  have d: "?call = (fst ?call, snd ?call)" by simp
  have rej: "rejected (?net 0 (healthRequest ?orch))" by simp
  from executeSearch_single_failover[OF a b c d] rej
  have "requests (snd ?call) = [healthRequest ?orch, alternateRequest ?orch ''rust'' []]"
    and "fst ?call = failoverResult ''2025-01-01T00:00:00.000Z'' (?net 1 (alternateRequest ?orch ''rust'' []))"
    by blast+
  then have "requests (snd ?call) = [Get ''http://localhost:3001/health'',
                       Post ''http://localhost:3002/search'' [(''query'', ''rust'')]]"
    and "fst ?call = FailedOver ''bubbleSearch'' ''[results]'' ''webSearchMCP'' ''2025-01-01T00:00:00.000Z''"
    by (simp_all add: healthRequest_def alternateRequest_def newOrchestrator_def initializeServers_def
          getServer_def spread_def)
  moreover have "servers (snd ?call) = servers ?orch
      \<and> serverHealth (snd ?call) = [''webSearchMCP'' \<mapsto> \<lparr> status_h = ''unhealthy'', error_h = Some ''ECONNREFUSED'',
                                                timestamp_h = 5 \<rparr>]"
    by (simp add: executeSearch_def checkHealth_def send_def fallbackSearch_def Let_def
          newOrchestrator_def initializeServers_def getServer_def setHealth_def)
  ultimately show ?thesis
    by (intro prod_eqI orchestrator.equality) simp_all
qed


section \<open>Properties of the statistics recorders\<close>

text \<open>
  C8. The claim: every call to the stats recorder increments the totals, updates the
  running mean and the maximum of the duration, and appends the query record to a buffer
  of at most 50 entries. \<open>recordQuery\<close> keeps no record of the query: two calls
  that differ only in the query leave the same state.
\<close>

theorem recordQuery_keeps_no_record_counterexample:
  "recordQuery wholeArith ''python'' ''live'' 120 True ''2025-01-01T10'' (analytics0 wholeArith)
     = recordQuery wholeArith ''rust'' ''live'' 120 True ''2025-01-01T10'' (analytics0 wholeArith)"
  by (simp add: recordQuery_def)

text \<open>
  C8, as the program has it, in two recorders. \<open>recordQuery\<close> increments the total
  of queries, the counter that the source and the success flag select, the count of the
  hour and the total of searches; it replaces the stored mean by the quotient of (stored
  mean times previous count, plus the duration) by the new count, each operation as the
  arithmetic of the program rounds it; it replaces the maximum by the duration when the
  duration is greater; and its result does not depend on the query text.
  \<open>StatsTracker.recordSearch\<close> increments the total, the successful counter when the
  search succeeded and the failed counter when it did not, adds the word count of the
  query, appends the duration to the list of durations, and appends the query record to
  the list of recent queries, dropping the oldest record when 50 are already held, so
  that a list of at most 50 records stays one.
\<close>

theorem stats_recorders:
  "total_q (queries_a (recordQuery ar q src d ok hour a)) = total_q (queries_a a) + 1
   \<and> cached_q (queries_a (recordQuery ar q src d ok hour a))
       = cached_q (queries_a a) + (if src = ''cache'' then 1 else 0)
   \<and> live_q (queries_a (recordQuery ar q src d ok hour a))
       = live_q (queries_a a) + (if src = ''live'' then 1 else 0)
   \<and> failed_q (queries_a (recordQuery ar q src d ok hour a))
       = failed_q (queries_a a) + (if src \<noteq> ''cache'' \<and> src \<noteq> ''live'' \<and> \<not> ok then 1 else 0)
   \<and> map_option queries_hr (hourly (recordQuery ar q src d ok hour a) hour)
       = Some (case hourly a hour of None \<Rightarrow> 1 | Some h \<Rightarrow> queries_hr h + 1)
   \<and> total_sm (searches (recordQuery ar q src d ok hour a)) = total_sm (searches a) + 1
   \<and> avgTime (searches (recordQuery ar q src d ok hour a))
       = divide_n ar
           (plus_n ar (times_n ar (avgTime (searches a)) (number ar (total_sm (searches a)))) d)
           (number ar (total_sm (searches a) + 1))
   \<and> maxTime (searches (recordQuery ar q src d ok hour a))
       = (if greater_n ar d (maxTime (searches a)) then d else maxTime (searches a))
   \<and> recordQuery ar q src d ok hour a = recordQuery ar other src d ok hour a
   \<and> totalSearches (recordSearch qo succeeded dur sv now st) = totalSearches st + 1
   \<and> successfulSearches (recordSearch qo succeeded dur sv now st)
       = successfulSearches st + (if succeeded then 1 else 0)
   \<and> failedSearches (recordSearch qo succeeded dur sv now st)
       = failedSearches st + (if succeeded then 0 else 1)
   \<and> totalQueryCount (recordSearch qo succeeded dur sv now st) = totalQueryCount st + wordCount qo
   \<and> searchDuration (recordSearch qo succeeded dur sv now st) = searchDuration st @ [dur]
   \<and> queries (recordSearch qo succeeded dur sv now st)
       = (if length (queries st) < 50 then queries st else tl (queries st))
         @ [\<lparr> query_qr = qo, success_qr = succeeded, duration_qr = dur, timestamp_qr = now, server_qr = sv \<rparr>]
   \<and> (length (queries st) \<le> 50 \<longrightarrow> length (queries (recordSearch qo succeeded dur sv now st)) \<le> 50)"
proof -
  have tl_app: "tl (xs @ [y]) = tl xs @ [y]" if "50 \<le> length xs" for xs :: "'c queryRecord list" and y
    using that by (cases xs) simp_all
  have rq: "total_q (queries_a (recordQuery ar q src d ok hour a)) = total_q (queries_a a) + 1
     \<and> cached_q (queries_a (recordQuery ar q src d ok hour a))
         = cached_q (queries_a a) + (if src = ''cache'' then 1 else 0)
     \<and> live_q (queries_a (recordQuery ar q src d ok hour a))
         = live_q (queries_a a) + (if src = ''live'' then 1 else 0)
     \<and> failed_q (queries_a (recordQuery ar q src d ok hour a))
         = failed_q (queries_a a) + (if src \<noteq> ''cache'' \<and> src \<noteq> ''live'' \<and> \<not> ok then 1 else 0)"
    by (simp add: recordQuery_def Let_def)
  have hr: "map_option queries_hr (hourly (recordQuery ar q src d ok hour a) hour)
       = Some (case hourly a hour of None \<Rightarrow> 1 | Some h \<Rightarrow> queries_hr h + 1)"
    by (simp add: recordQuery_def Let_def split: option.splits)
  have sm: "total_sm (searches (recordQuery ar q src d ok hour a)) = total_sm (searches a) + 1
     \<and> avgTime (searches (recordQuery ar q src d ok hour a))
       = divide_n ar
           (plus_n ar (times_n ar (avgTime (searches a)) (number ar (total_sm (searches a)))) d)
           (number ar (total_sm (searches a) + 1))
     \<and> maxTime (searches (recordQuery ar q src d ok hour a))
       = (if greater_n ar d (maxTime (searches a)) then d else maxTime (searches a))"
    by (simp add: recordQuery_def Let_def)
  have ind: "recordQuery ar q src d ok hour a = recordQuery ar other src d ok hour a"
    by (simp add: recordQuery_def)
  have rs: "totalSearches (recordSearch qo succeeded dur sv now st) = totalSearches st + 1
     \<and> successfulSearches (recordSearch qo succeeded dur sv now st)
         = successfulSearches st + (if succeeded then 1 else 0)
     \<and> failedSearches (recordSearch qo succeeded dur sv now st)
         = failedSearches st + (if succeeded then 0 else 1)
     \<and> totalQueryCount (recordSearch qo succeeded dur sv now st) = totalQueryCount st + wordCount qo
     \<and> searchDuration (recordSearch qo succeeded dur sv now st) = searchDuration st @ [dur]"
    by (simp add: recordSearch_def Let_def)
  have buf: "queries (recordSearch qo succeeded dur sv now st)
       = (if length (queries st) < 50 then queries st else tl (queries st))
         @ [\<lparr> query_qr = qo, success_qr = succeeded, duration_qr = dur, timestamp_qr = now, server_qr = sv \<rparr>]"
    by (simp add: recordSearch_def Let_def tl_app)
  have cap: "length (queries st) \<le> 50 \<longrightarrow> length (queries (recordSearch qo succeeded dur sv now st)) \<le> 50"
    by (auto simp: recordSearch_def Let_def)
  show ?thesis
    using rq hr sm ind rs buf cap by blast
qed

theorem stats_recorders_witness:
  "length (queries ((searchStats0 0)\<lparr> queries := replicate 50 oldRecord \<rparr>)) \<le> 50
   \<and> queries (recordSearch (Some ''rust'') True 120 ''external-mcp'' 9
                ((searchStats0 0)\<lparr> queries := replicate 50 oldRecord \<rparr>))
       = replicate 49 oldRecord @ [\<lparr> query_qr = Some ''rust'', success_qr = True, duration_qr = 120,
                                     timestamp_qr = 9, server_qr = ''external-mcp'' \<rparr>]
   \<and> length (queries (recordSearch (Some ''rust'') True 120 ''external-mcp'' 9
                        ((searchStats0 0)\<lparr> queries := replicate 50 oldRecord \<rparr>))) \<le> 50
   \<and> successfulSearches (recordSearch (Some ''rust'') True 120 ''external-mcp'' 9
                        ((searchStats0 0)\<lparr> queries := replicate 50 oldRecord \<rparr>)) = 1
   \<and> failedSearches (recordSearch (Some ''rust'') True 120 ''external-mcp'' 9
                        ((searchStats0 0)\<lparr> queries := replicate 50 oldRecord \<rparr>)) = 0
   \<and> searches (recordQuery wholeArith ''rust'' ''live'' 120 True ''2025-01-01T10'' (analytics0 wholeArith))
       = \<lparr> total_sm = 1, avgTime = 120, maxTime = 120 \<rparr>
   \<and> queries_a (recordQuery wholeArith ''rust'' ''live'' 120 True ''2025-01-01T10'' (analytics0 wholeArith))
       = \<lparr> total_q = 1, cached_q = 0, live_q = 1, failed_q = 0 \<rparr>"
proof -
  let ?st = "(searchStats0 0)\<lparr> queries := replicate 50 oldRecord \<rparr>"
  let ?a = "analytics0 wholeArith"
  have a0: "total_sm (searches ?a) = 0" "avgTime (searches ?a) = 0" "maxTime (searches ?a) = 0"
    "queries_a ?a = \<lparr> total_q = 0, cached_q = 0, live_q = 0, failed_q = 0 \<rparr>"
    by (simp_all add: analytics0_def wholeArith_def)
  have st0: "length (queries ?st) = 50" "successfulSearches ?st = 0" "failedSearches ?st = 0"
    "queries ?st = replicate 50 oldRecord"
    by (simp_all add: searchStats0_def)
  have w: "times_n wholeArith 0 (number wholeArith 0) = 0" "plus_n wholeArith 0 120 = 120"
    "divide_n wholeArith 120 (number wholeArith 1) = 120" "greater_n wholeArith 120 0"
    by (simp_all add: wholeArith_def)
  note inst = stats_recorders[where ar = wholeArith and q = "''rust''" and src = "''live''" and d = 120
          and ok = True and hour = "''2025-01-01T10''" and a = ?a
          and qo = "Some ''rust''" and succeeded = True and dur = 120 and sv = "''external-mcp''"
          and now = 9 and st = ?st]
  have sm: "searches (recordQuery wholeArith ''rust'' ''live'' 120 True ''2025-01-01T10'' ?a)
       = \<lparr> total_sm = 1, avgTime = 120, maxTime = 120 \<rparr>"
    using inst a0 w by (intro searchMetrics.equality) simp_all
  have qc: "queries_a (recordQuery wholeArith ''rust'' ''live'' 120 True ''2025-01-01T10'' ?a)
       = \<lparr> total_q = 1, cached_q = 0, live_q = 1, failed_q = 0 \<rparr>"
    using inst a0 by (intro queryCounters.equality) simp_all
  have rs: "queries (recordSearch (Some ''rust'') True 120 ''external-mcp'' 9 ?st)
       = replicate 49 oldRecord @ [\<lparr> query_qr = Some ''rust'', success_qr = True, duration_qr = 120,
                                     timestamp_qr = 9, server_qr = ''external-mcp'' \<rparr>]"
    "length (queries (recordSearch (Some ''rust'') True 120 ''external-mcp'' 9 ?st)) \<le> 50"
    "successfulSearches (recordSearch (Some ''rust'') True 120 ''external-mcp'' 9 ?st) = 1"
    "failedSearches (recordSearch (Some ''rust'') True 120 ''external-mcp'' 9 ?st) = 0"
    using inst st0 by simp_all
  show ?thesis using st0(1) rs sm qc by simp
qed

end
